theory Spec2Isabelle
  imports Complex_Main "HOL-Library.Word" "HOL-Library.Sublist"
begin

section \<open>Strings\<close>

text \<open>
  A JavaScript string is a sequence of UTF-16 code units. The regular expressions of
  \<^verbatim>\<open>src/services/lyrics.ts\<close> carry no \<^verbatim>\<open>u\<close> flag, so they, \<^verbatim>\<open>split\<close> and
  \<^verbatim>\<open>trim\<close> all work on code units.
\<close>

type_synonym jschar = "16 word"
type_synonym jsstring = "jschar list"

definition js :: "string \<Rightarrow> jsstring" where
  "js s = map of_char s"

abbreviation LBRACKET :: jschar where "LBRACKET \<equiv> 0x5B"
abbreviation RBRACKET :: jschar where "RBRACKET \<equiv> 0x5D"
abbreviation COLON :: jschar where "COLON \<equiv> 0x3A"
abbreviation DOT :: jschar where "DOT \<equiv> 0x2E"
abbreviation MINUS :: jschar where "MINUS \<equiv> 0x2D"
abbreviation NEWLINE :: jschar where "NEWLINE \<equiv> 0x0A"
abbreviation ZERO :: jschar where "ZERO \<equiv> 0x30"

text \<open>The class \<^verbatim>\<open>\d\<close>: the ten ASCII digits.\<close>

definition is_digit :: "jschar \<Rightarrow> bool" where
  "is_digit c \<longleftrightarrow> 0x30 \<le> c \<and> c \<le> 0x39"

definition digit_val :: "jschar \<Rightarrow> int" where
  "digit_val c = uint c - 48"

text \<open>
  What \<^verbatim>\<open>String.prototype.trim\<close> strips: the WhiteSpace and LineTerminator code points
  of ECMAScript (TAB, LF, VT, FF, CR, SPACE, NBSP, U+1680, U+2000 to U+200A, U+2028,
  U+2029, U+202F, U+205F, U+3000, U+FEFF).
\<close>

definition is_ws :: "jschar \<Rightarrow> bool" where
  "is_ws c \<longleftrightarrow>
     (0x09 \<le> c \<and> c \<le> 0x0D) \<or> c = 0x20 \<or> c = 0xA0 \<or> c = 0x1680 \<or>
     (0x2000 \<le> c \<and> c \<le> 0x200A) \<or> c = 0x2028 \<or> c = 0x2029 \<or> c = 0x202F \<or>
     c = 0x205F \<or> c = 0x3000 \<or> c = 0xFEFF"

definition trim :: "jsstring \<Rightarrow> jsstring" where
  "trim s = rev (dropWhile is_ws (rev (dropWhile is_ws s)))"

text \<open>\<^verbatim>\<open>s.split(sep)\<close> for a one-unit separator; the empty string gives one empty piece.\<close>

fun split :: "jschar \<Rightarrow> jsstring \<Rightarrow> jsstring list" where
  "split sep [] = [[]]"
| "split sep (c # cs) =
     (if c = sep then [] # split sep cs
      else (case split sep cs of [] \<Rightarrow> [[c]] | l # ls \<Rightarrow> (c # l) # ls))"

text \<open>\<^verbatim>\<open>xs.join(sep)\<close>.\<close>

fun join :: "jschar \<Rightarrow> jsstring list \<Rightarrow> jsstring" where
  "join sep [] = []"
| "join sep [l] = l"
| "join sep (l # ls) = l @ sep # join sep ls"

section \<open>The regular expressions\<close>

text \<open>
  \<^verbatim>\<open>LRC_TIMESTAMP_REGEX = /\[(\d{1,2}):(\d{2}(?:\.\d+)?)\]/g\<close>, matched at the head of a
  string. The result is the two capture groups and the length of the match. Every
  quantifier is greedy, and each is followed by a character outside its class, so
  backtracking never finds a match that the longest choice misses: after one digit a
  second one is taken when there is one, and the fraction takes every digit.
\<close>

definition match_timestamp :: "jsstring \<Rightarrow> (jsstring \<times> jsstring \<times> nat) option" where
  "match_timestamp s =
    (case s of [] \<Rightarrow> None | c # r0 \<Rightarrow>
     if c \<noteq> LBRACKET then None else
     let g1 = takeWhile is_digit (take 2 r0); r1 = drop (length g1) r0 in
     if g1 = [] then None else
     (case r1 of [] \<Rightarrow> None | c1 # r2 \<Rightarrow>
      if c1 \<noteq> COLON then None else
      let ss = take 2 r2; r3 = drop 2 r2 in
      if length ss = 2 \<and> list_all is_digit ss then
        (case r3 of [] \<Rightarrow> None | c3 # r4 \<Rightarrow>
         if c3 = RBRACKET then Some (g1, ss, length g1 + 5)
         else if c3 \<noteq> DOT then None else
         let fr = takeWhile is_digit r4; r5 = drop (length fr) r4 in
         if fr = [] then None else
         (case r5 of [] \<Rightarrow> None | c5 # r6 \<Rightarrow>
          if c5 = RBRACKET then Some (g1, ss @ DOT # fr, length g1 + length fr + 6)
          else None))
      else None))"

text \<open>
  \<^verbatim>\<open>METADATA_REGEX = /\[(ti|ar|al|by|offset):[^\]]*\]/g\<close> at the head of a string; the
  result is the length of the match. No key is a prefix of another, so the first
  alternative that fits is the only one.
\<close>

definition meta_keys :: "jsstring list" where
  "meta_keys = [js ''ti'', js ''ar'', js ''al'', js ''by'', js ''offset'']"

definition match_metadata :: "jsstring \<Rightarrow> nat option" where
  "match_metadata s =
    (case s of [] \<Rightarrow> None | c # r0 \<Rightarrow>
     if c \<noteq> LBRACKET then None else
     (case find (\<lambda>k. prefix (k @ [COLON]) r0) meta_keys of None \<Rightarrow> None
      | Some k \<Rightarrow>
         let r1 = drop (length k + 1) r0;
             body = takeWhile (\<lambda>c. c \<noteq> RBRACKET) r1;
             r2 = drop (length body) r1
         in (case r2 of [] \<Rightarrow> None | c2 # r3 \<Rightarrow> Some (length k + length body + 3))))"

text \<open>
  A global regular expression keeps the index where its next search starts,
  \<^verbatim>\<open>lastIndex\<close>. \<^verbatim>\<open>ts_exec li s\<close> is one \<^verbatim>\<open>RegExpBuiltinExec\<close> of the timestamp
  expression on \<^verbatim>\<open>s\<close> with \<^verbatim>\<open>lastIndex = li\<close>: the first match at an index from
  \<^verbatim>\<open>li\<close> on, with the new \<^verbatim>\<open>lastIndex\<close> (the end of the match), or no match and
  \<^verbatim>\<open>lastIndex\<close> reset to 0.
\<close>

fun ts_search :: "nat \<Rightarrow> jsstring \<Rightarrow> ((jsstring \<times> jsstring) \<times> nat) option" where
  "ts_search i [] = None"
| "ts_search i (c # cs) =
     (case match_timestamp (c # cs) of
        Some (g1, g2, n) \<Rightarrow> Some ((g1, g2), i + n)
      | None \<Rightarrow> ts_search (Suc i) cs)"

definition ts_exec :: "nat \<Rightarrow> jsstring \<Rightarrow> (jsstring \<times> jsstring) option \<times> nat" where
  "ts_exec li s =
     (if length s < li then (None, 0)
      else (case ts_search li (drop li s) of
              None \<Rightarrow> (None, 0)
            | Some (m, e) \<Rightarrow> (Some m, e)))"

text \<open>
  \<^verbatim>\<open>Array.from(line.matchAll(LRC_TIMESTAMP_REGEX))\<close>. \<^verbatim>\<open>matchAll\<close> works on a copy of
  the expression, and the copy starts with the \<^verbatim>\<open>lastIndex\<close> of the original; the
  original is not written. The first argument counts the code units still to skip:
  those before \<^verbatim>\<open>lastIndex\<close> at first, then those of the match just found.
\<close>

fun ts_matchAll :: "nat \<Rightarrow> jsstring \<Rightarrow> (jsstring \<times> jsstring) list" where
  "ts_matchAll k [] = []"
| "ts_matchAll (Suc k) (c # cs) = ts_matchAll k cs"
| "ts_matchAll 0 (c # cs) =
     (case match_timestamp (c # cs) of
        Some (g1, g2, n) \<Rightarrow> (g1, g2) # ts_matchAll (n - 1) cs
      | None \<Rightarrow> ts_matchAll 0 cs)"

text \<open>
  \<^verbatim>\<open>line.replace(LRC_TIMESTAMP_REGEX, '')\<close> and \<^verbatim>\<open>line.replace(METADATA_REGEX, '')\<close>.
  \<^verbatim>\<open>replace\<close> with a global expression sets its \<^verbatim>\<open>lastIndex\<close> to 0, removes every
  match from left to right, and leaves \<^verbatim>\<open>lastIndex\<close> at 0.
\<close>

fun ts_remove :: "nat \<Rightarrow> jsstring \<Rightarrow> jsstring" where
  "ts_remove k [] = []"
| "ts_remove (Suc k) (c # cs) = ts_remove k cs"
| "ts_remove 0 (c # cs) =
     (case match_timestamp (c # cs) of
        Some (g1, g2, n) \<Rightarrow> ts_remove (n - 1) cs
      | None \<Rightarrow> c # ts_remove 0 cs)"

fun meta_remove :: "nat \<Rightarrow> jsstring \<Rightarrow> jsstring" where
  "meta_remove k [] = []"
| "meta_remove (Suc k) (c # cs) = meta_remove k cs"
| "meta_remove 0 (c # cs) =
     (case match_metadata (c # cs) of
        Some n \<Rightarrow> meta_remove (n - 1) cs
      | None \<Rightarrow> c # meta_remove 0 cs)"

section \<open>Numbers\<close>

text \<open>
  A JavaScript number is an IEEE 754 binary64 value. The model works with the finite
  ones, each given by its exact value as a rational. An arithmetic operation computes
  the exact result and rounds it to 53 significant bits, ties to the even significand
  (\<^verbatim>\<open>rnd\<close>). Outside the model: NaN, the infinities, negative zero, and the limits of
  the exponent (overflow past \<open>2\<^sup>1\<^sup>0\<^sup>2\<^sup>4\<close>, gradual underflow below
  \<open>2\<^sup>-\<^sup>1\<^sup>0\<^sup>2\<^sup>2\<close>).
\<close>

type_synonym number = rat

text \<open>The number of binary digits of a positive integer.\<close>

function bitlength :: "int \<Rightarrow> int" where
  "bitlength n = (if n \<le> 0 then 0 else 1 + bitlength (n div 2))"
  by pat_completeness auto
termination
  by (relation "measure nat") auto

declare bitlength.simps [simp del]

definition pow2 :: "int \<Rightarrow> rat" where
  "pow2 e = (if 0 \<le> e then 2 ^ nat e else 1 / 2 ^ nat (- e))"

text \<open>For \<open>0 < x\<close>, \<open>ilog2 x\<close> is the exponent \<open>e\<close> with \<open>2\<^sup>e \<le> x < 2\<^sup>e\<^sup>+\<^sup>1\<close>.\<close>

definition ilog2 :: "rat \<Rightarrow> int" where
  "ilog2 x =
     (if 1 \<le> x then bitlength \<lfloor>x\<rfloor> - 1
      else - bitlength (\<lceil>1 / x\<rceil> - 1))"

definition round_half_even :: "rat \<Rightarrow> int" where
  "round_half_even q =
     (let f = \<lfloor>q\<rfloor>; d = q - of_int f in
      if d < 1 / 2 then f
      else if 1 / 2 < d then f + 1
      else if even f then f else f + 1)"

definition rnd :: "rat \<Rightarrow> number" where
  "rnd x =
     (if x = 0 then 0
      else let u = pow2 (ilog2 \<bar>x\<bar> - 52) in of_int (round_half_even (x / u)) * u)"

definition fadd :: "number \<Rightarrow> number \<Rightarrow> number" where
  "fadd x y = rnd (x + y)"

definition fsub :: "number \<Rightarrow> number \<Rightarrow> number" where
  "fsub x y = rnd (x - y)"

definition fmul :: "number \<Rightarrow> number \<Rightarrow> number" where
  "fmul x y = rnd (x * y)"

text \<open>\<^verbatim>\<open>x / y\<close>; the program divides by the constants 60 and 1000 only.\<close>

definition fdiv :: "number \<Rightarrow> number \<Rightarrow> number" where
  "fdiv x y = rnd (x / y)"

text \<open>
  \<^verbatim>\<open>x % y\<close>: the remainder of the division truncated towards zero, with the sign of
  \<^verbatim>\<open>x\<close>. It is computed exactly; the program takes it modulo 60 and 1 only.
\<close>

definition trunc :: "rat \<Rightarrow> int" where
  "trunc x = (if 0 \<le> x then \<lfloor>x\<rfloor> else \<lceil>x\<rceil>)"

definition frem :: "number \<Rightarrow> number \<Rightarrow> number" where
  "frem x y = x - y * of_int (trunc (x / y))"

text \<open>The value of a string of decimal digits.\<close>

definition digits_val :: "jsstring \<Rightarrow> int" where
  "digits_val ds = foldl (\<lambda>a c. 10 * a + digit_val c) 0 ds"

text \<open>
  \<^verbatim>\<open>parseInt(s, 10)\<close> on the strings it is given here: digits, after an optional
  minus sign. The result is the number nearest to the integer written.
\<close>

definition parseInt :: "jsstring \<Rightarrow> number" where
  "parseInt s =
     (case s of [] \<Rightarrow> 0
      | c # cs \<Rightarrow>
          if c = MINUS then rnd (- of_int (digits_val (takeWhile is_digit cs)))
          else rnd (of_int (digits_val (takeWhile is_digit s))))"

text \<open>
  \<^verbatim>\<open>parseFloat(s)\<close> on the strings the second capture group can hold: digits, then
  possibly a dot and more digits. The result is the number nearest to the decimal
  written.
\<close>

definition parseFloat :: "jsstring \<Rightarrow> number" where
  "parseFloat s =
     (let ip = takeWhile is_digit s;
          r = drop (length ip) s;
          fp = (case r of [] \<Rightarrow> [] | c # r' \<Rightarrow> if c = DOT then takeWhile is_digit r' else [])
      in rnd (of_int (digits_val ip) + of_int (digits_val fp) / 10 ^ length fp))"

section \<open>Parsing LRC text\<close>

record LyricsLine =
  time :: number
  "text" :: jsstring

text \<open>
  \<^verbatim>\<open>parsedLines.sort((a, b) => a.time - b.time)\<close>. \<^verbatim>\<open>Array.prototype.sort\<close> is stable
  (ECMAScript 2019): an element goes before the elements it does not compare greater
  than, and after those that came before it and compare equal. For a comparison that
  orders the elements consistently, as this one does, that fixes the result; it is
  computed here by insertion.
\<close>

definition compareTime :: "LyricsLine \<Rightarrow> LyricsLine \<Rightarrow> number" where
  "compareTime a b = fsub (time a) (time b)"

fun insert_by :: "('a \<Rightarrow> 'a \<Rightarrow> number) \<Rightarrow> 'a \<Rightarrow> 'a list \<Rightarrow> 'a list" where
  "insert_by cmp x [] = [x]"
| "insert_by cmp x (y # ys) =
     (if cmp x y \<le> 0 then x # y # ys else y # insert_by cmp x ys)"

definition sort_by :: "('a \<Rightarrow> 'a \<Rightarrow> number) \<Rightarrow> 'a list \<Rightarrow> 'a list" where
  "sort_by cmp xs = foldr (insert_by cmp) xs []"

text \<open>
  The body of \<^verbatim>\<open>lines.forEach\<close> in \<^verbatim>\<open>parseLrcLyrics\<close>, for one line: the entries it
  pushes. The state is the \<^verbatim>\<open>lastIndex\<close> of the module's one \<^verbatim>\<open>LRC_TIMESTAMP_REGEX\<close>
  object: \<^verbatim>\<open>matchAll\<close> reads it, \<^verbatim>\<open>replace\<close> resets it. \<^verbatim>\<open>METADATA_REGEX\<close> is only
  ever used by \<^verbatim>\<open>replace\<close>, which starts at 0 whatever the state, so it needs none.
\<close>

definition lineTime :: "jsstring \<times> jsstring \<Rightarrow> number" where
  "lineTime m = (let minutes = parseInt (fst m); seconds = parseFloat (snd m)
                 in fadd (fmul minutes 60) seconds)"

text \<open>The entry pushed for one match: the body of \<^verbatim>\<open>timestamps.forEach\<close>.\<close>

definition lineEntry :: "jsstring \<Rightarrow> jsstring \<times> jsstring \<Rightarrow> LyricsLine" where
  "lineEntry txt m = \<lparr>time = lineTime m, text = txt\<rparr>"

definition processLine :: "nat \<Rightarrow> jsstring \<Rightarrow> LyricsLine list \<times> nat" where
  "processLine li line =
     (let cleanLine = trim (meta_remove 0 line) in
      if cleanLine = [] then ([], li) else
      let timestamps = ts_matchAll li line in
      if timestamps = [] then ([], li) else
      let txt = trim (ts_remove 0 line) in
      (map (lineEntry txt) timestamps, 0))"

fun forEachLine :: "nat \<Rightarrow> jsstring list \<Rightarrow> LyricsLine list \<times> nat" where
  "forEachLine li [] = ([], li)"
| "forEachLine li (l # ls) =
     (let (es, li') = processLine li l;
          (rest, li'') = forEachLine li' ls
      in (es @ rest, li''))"

definition parseLrcLyrics :: "nat \<Rightarrow> jsstring \<Rightarrow> LyricsLine list \<times> nat" where
  "parseLrcLyrics li lrcText =
     (if lrcText = [] then ([], li)
      else let (parsedLines, li') = forEachLine li (split NEWLINE lrcText)
           in (sort_by compareTime parsedLines, li'))"

text \<open>
  \<^verbatim>\<open>isLrcFormat\<close>: \<^verbatim>\<open>LRC_TIMESTAMP_REGEX.test(text)\<close> is one exec of the shared global
  expression, from its \<^verbatim>\<open>lastIndex\<close>, and writes \<^verbatim>\<open>lastIndex\<close> back.
\<close>

definition isLrcFormat :: "nat \<Rightarrow> jsstring \<Rightarrow> bool \<times> nat" where
  "isLrcFormat li txt =
     (if txt = [] then (False, li)
      else (case ts_exec li txt of
              (None, li') \<Rightarrow> (False, li')
            | (Some m, li') \<Rightarrow> (True, li')))"

section \<open>Synchronisation\<close>

text \<open>
  \<^verbatim>\<open>findActiveLine\<close>: the loop \<^verbatim>\<open>for (let i = lyrics.length - 1; i >= 0; i--)\<close>, with
  \<^verbatim>\<open>n\<close> the number of indices still to visit (\<^verbatim>\<open>i = n - 1\<close>).
\<close>

fun findActiveLine_loop :: "LyricsLine list \<Rightarrow> number \<Rightarrow> nat \<Rightarrow> int" where
  "findActiveLine_loop lyrics currentTime 0 = - 1"
| "findActiveLine_loop lyrics currentTime (Suc i) =
     (if currentTime \<ge> time (lyrics ! i) then int i
      else findActiveLine_loop lyrics currentTime i)"

definition findActiveLine :: "LyricsLine list \<Rightarrow> number \<Rightarrow> int" where
  "findActiveLine lyrics currentTime =
     (if length lyrics = 0 then - 1
      else findActiveLine_loop lyrics currentTime (length lyrics))"

text \<open>
  \<^verbatim>\<open>Array.prototype.slice(start, end)\<close> on integers: a negative bound counts from the
  end of the array, and both bounds are clipped to the array.
\<close>

definition slice :: "'a list \<Rightarrow> int \<Rightarrow> int \<Rightarrow> 'a list" where
  "slice xs start end =
     (let len = int (length xs);
          k = (if start < 0 then max (len + start) 0 else min start len);
          final = (if end < 0 then max (len + end) 0 else min end len)
      in take (nat (final - k)) (drop (nat k) xs))"

text \<open>
  \<^verbatim>\<open>getLyricsWindow\<close>. The index is an index of the array and the window size a count
  of lines: both are integers.
\<close>

definition getLyricsWindow :: "LyricsLine list \<Rightarrow> int \<Rightarrow> int \<Rightarrow> LyricsLine list" where
  "getLyricsWindow lyrics currentIndex windowSize =
     (if length lyrics = 0 \<or> currentIndex < 0 then []
      else let start = max 0 (currentIndex - windowSize);
               end = min (int (length lyrics)) (currentIndex + windowSize + 1)
           in slice lyrics start end)"

section \<open>Formatting\<close>

text \<open>
  \<^verbatim>\<open>n.toString()\<close> for an integer (below \<open>10\<^sup>2\<^sup>1\<close> in size, where JavaScript still
  writes every digit), and \<^verbatim>\<open>s.padStart(n, '0')\<close>.
\<close>

definition digit_char :: "int \<Rightarrow> jschar" where
  "digit_char d = word_of_int (48 + d)"

function dec_digits :: "int \<Rightarrow> jsstring" where
  "dec_digits n =
     (if n < 10 then [digit_char n] else dec_digits (n div 10) @ [digit_char (n mod 10)])"
  by pat_completeness auto
termination
  by (relation "measure nat") auto

declare dec_digits.simps [simp del]

definition toString :: "int \<Rightarrow> jsstring" where
  "toString n = (if n < 0 then MINUS # dec_digits (- n) else dec_digits n)"

definition padStart :: "nat \<Rightarrow> jschar \<Rightarrow> jsstring \<Rightarrow> jsstring" where
  "padStart n c s = replicate (n - length s) c @ s"

definition formatLyricsTime :: "number \<Rightarrow> jsstring" where
  "formatLyricsTime seconds =
     (let minutes = \<lfloor>fdiv seconds 60\<rfloor>;
          secs = \<lfloor>frem seconds 60\<rfloor>;
          ms = \<lfloor>fmul (frem seconds 1) 100\<rfloor>
      in padStart 2 ZERO (toString minutes) @ COLON # padStart 2 ZERO (toString secs)
           @ DOT # padStart 2 ZERO (toString ms))"

text \<open>The template \<^verbatim>\<open>`[${formatLyricsTime(line.time)}]${line.text}`\<close>.\<close>

definition lrcLine :: "LyricsLine \<Rightarrow> jsstring" where
  "lrcLine line = LBRACKET # formatLyricsTime (time line) @ RBRACKET # text line"

definition toLrcFormat :: "LyricsLine list \<Rightarrow> jsstring" where
  "toLrcFormat lyrics =
     (if length lyrics = 0 then [] else join NEWLINE (map lrcLine lyrics))"

section \<open>Offsets\<close>

text \<open>
  \<^verbatim>\<open>applyOffset\<close> on the values: \<^verbatim>\<open>lyrics.map\<close> with an object literal per element.
\<close>

definition shiftLine :: "number \<Rightarrow> LyricsLine \<Rightarrow> LyricsLine" where
  "shiftLine offsetSeconds line =
     \<lparr>time = max 0 (fadd (time line) offsetSeconds), text = text line\<rparr>"

definition applyOffset :: "LyricsLine list \<Rightarrow> number \<Rightarrow> LyricsLine list" where
  "applyOffset lyrics offsetMs =
     (if length lyrics = 0 then []
      else let offsetSeconds = fdiv offsetMs 1000
           in map (shiftLine offsetSeconds) lyrics)"

text \<open>
  The same function on a store, to tell a new object from an old one. An address is
  an index into the store; an array holds the addresses of its elements. The array
  literal, \<^verbatim>\<open>map\<close> and the object literal allocate at the end of the store, and nothing
  in \<^verbatim>\<open>applyOffset\<close> assigns to an existing object. The result is \<^verbatim>\<open>None\<close> when the
  argument is not the address of an array of lines, which the type of the parameter
  rules out.
\<close>

datatype obj = Line LyricsLine | Arr "nat list"

type_synonym store = "obj list"

definition read_line :: "store \<Rightarrow> nat \<Rightarrow> LyricsLine option" where
  "read_line h r =
     (if r < length h then (case h ! r of Line l \<Rightarrow> Some l | Arr rs \<Rightarrow> None) else None)"

fun read_lines :: "store \<Rightarrow> nat list \<Rightarrow> LyricsLine list option" where
  "read_lines h [] = Some []"
| "read_lines h (r # rs) =
     (case read_line h r of None \<Rightarrow> None
      | Some l \<Rightarrow> (case read_lines h rs of None \<Rightarrow> None | Some ls \<Rightarrow> Some (l # ls)))"

definition read_array :: "store \<Rightarrow> nat \<Rightarrow> LyricsLine list option" where
  "read_array h a =
     (if a < length h then (case h ! a of Arr rs \<Rightarrow> read_lines h rs | Line l \<Rightarrow> None)
      else None)"

definition applyOffset_store :: "store \<Rightarrow> nat \<Rightarrow> number \<Rightarrow> (store \<times> nat) option" where
  "applyOffset_store h lyrics offsetMs =
     (case read_array h lyrics of None \<Rightarrow> None
      | Some ls \<Rightarrow>
          if length ls = 0 then Some (h @ [Arr []], length h)
          else let offsetSeconds = fdiv offsetMs 1000;
                   a = length h
               in Some (h @ Arr [Suc a ..< Suc a + length ls]
                              # map (\<lambda>line. Line (shiftLine offsetSeconds line)) ls, a))"

text \<open>
  \<^verbatim>\<open>extractOffset\<close>: \<^verbatim>\<open>/\[offset:(-?\d+)\]/\<close> has no \<^verbatim>\<open>g\<close> flag, so \<^verbatim>\<open>match\<close> returns
  the first match from the start of the string and keeps no state.
\<close>

definition match_offset :: "jsstring \<Rightarrow> jsstring option" where
  "match_offset s =
     (if \<not> prefix (js ''[offset:'') s then None
      else let r = drop 8 s;
               sign = takeWhile (\<lambda>c. c = MINUS) (take 1 r);
               r1 = drop (length sign) r;
               ds = takeWhile is_digit r1;
               r2 = drop (length ds) r1
           in if ds = [] then None
              else (case r2 of [] \<Rightarrow> None
                    | c # r3 \<Rightarrow> if c = RBRACKET then Some (sign @ ds) else None))"

fun offset_search :: "jsstring \<Rightarrow> jsstring option" where
  "offset_search [] = None"
| "offset_search (c # cs) =
     (case match_offset (c # cs) of Some g \<Rightarrow> Some g | None \<Rightarrow> offset_search cs)"

definition extractOffset :: "jsstring \<Rightarrow> number" where
  "extractOffset lrcText =
     (if lrcText = [] then 0
      else (case offset_search lrcText of
              None \<Rightarrow> 0
            | Some g \<Rightarrow> if g \<noteq> [] then parseInt g else 0))"

section \<open>Choosing a URL by quality\<close>

text \<open>
  \<^verbatim>\<open>src/utils/helpers.ts\<close>. A field that may be absent is an \<^verbatim>\<open>option\<close>; \<^verbatim>\<open>null\<close> as a
  result is \<^verbatim>\<open>None\<close>. In \<^verbatim>\<open>a || b\<close> a string counts as false when it is absent or
  empty.
\<close>

record DownloadUrl =
  quality :: jsstring
  link :: "jsstring option"
  url :: "jsstring option"

definition truthy :: "jsstring option \<Rightarrow> bool" where
  "truthy v = (case v of None \<Rightarrow> False | Some s \<Rightarrow> s \<noteq> [])"

text \<open>\<^verbatim>\<open>a || b\<close> and \<^verbatim>\<open>a || null\<close> on strings that may be absent.\<close>

definition or_else :: "jsstring option \<Rightarrow> jsstring option \<Rightarrow> jsstring option" where
  "or_else a b = (if truthy a then a else b)"

definition or_null :: "jsstring option \<Rightarrow> jsstring option" where
  "or_null a = (if truthy a then a else None)"

text \<open>
  A value that \<^verbatim>\<open>qualityMap[quality]\<close> may have: a string of the object literal, or what
  the literal inherits from \<^verbatim>\<open>Object.prototype\<close>, which is that prototype itself (under
  the accessor \<^verbatim>\<open>__proto__\<close>) or one of its built-in functions (named here by its property
  key).
\<close>

datatype jsvalue = Str jsstring | ObjectPrototype | NativeFunction jsstring

definition prototype_functions :: "jsstring list" where
  "prototype_functions =
     [js ''constructor'', js ''hasOwnProperty'', js ''isPrototypeOf'',
      js ''propertyIsEnumerable'', js ''toLocaleString'', js ''toString'', js ''valueOf'',
      js ''__defineGetter__'', js ''__defineSetter__'', js ''__lookupGetter__'',
      js ''__lookupSetter__'']"

text \<open>
  \<^verbatim>\<open>qualityMap[quality]\<close>: the five keys of the object literal, then the property names of
  \<^verbatim>\<open>Object.prototype\<close>; any other string finds nothing (\<^verbatim>\<open>undefined\<close>).
\<close>

definition qualityMap :: "jsstring \<Rightarrow> jsvalue option" where
  "qualityMap q =
     (case map_of [(js ''Less_low'', js ''48''), (js ''low'', js ''96''), (js ''medium'', js ''160''),
                   (js ''high'', js ''320''), (js ''auto'', [])] q of
        Some s \<Rightarrow> Some (Str s)
      | None \<Rightarrow>
          if q = js ''__proto__'' then Some ObjectPrototype
          else if q \<in> set prototype_functions then Some (NativeFunction q)
          else None)"

text \<open>
  \<^verbatim>\<open>new RegExp(targetBitrate, 'i').test(s)\<close> for a pattern of digits: a search for the
  pattern as a substring. Letter case plays no part, a digit has none.
\<close>

fun regex_test :: "jsstring \<Rightarrow> jsstring \<Rightarrow> bool" where
  "regex_test pat [] = (pat = [])"
| "regex_test pat (c # cs) = (prefix pat (c # cs) \<or> regex_test pat cs)"

text \<open>
  The same when the pattern is \<^verbatim>\<open>Object.prototype\<close>: as a string it is
  \<^verbatim>\<open>[object Object]\<close>, which as a pattern is a class of characters, and with the flag
  \<^verbatim>\<open>i\<close> the test is for one of the letters of \<^verbatim>\<open>object\<close>, small or capital, or a space.
\<close>

definition object_Object_test :: "jsstring \<Rightarrow> bool" where
  "object_Object_test s = list_ex (\<lambda>c. c \<in> set (js ''object OBJECT'')) s"

text \<open>
  \<^verbatim>\<open>new RegExp(v, 'i').test(s)\<close> for a value \<open>v\<close> of \<^verbatim>\<open>qualityMap[quality]\<close>. The pattern made
  of a built-in function is its source text, which the engine chooses: \<open>native k s\<close> is
  the outcome of the test for the function under the key \<open>k\<close>.
\<close>

definition regexp_i_test :: "(jsstring \<Rightarrow> jsstring \<Rightarrow> bool) \<Rightarrow> jsvalue \<Rightarrow> jsstring \<Rightarrow> bool" where
  "regexp_i_test native v s =
     (case v of
        Str pat \<Rightarrow> regex_test pat s
      | ObjectPrototype \<Rightarrow> object_Object_test s
      | NativeFunction k \<Rightarrow> native k s)"

text \<open>
  \<^verbatim>\<open>downloadUrls[downloadUrls.length - 1]\<close> is \<^verbatim>\<open>undefined\<close> for an empty array, and
  reading a property of it throws.
\<close>

datatype error = TypeError

definition last_elem :: "'a list \<Rightarrow> error + 'a" where
  "last_elem xs = (if length xs = 0 then Inl TypeError else Inr (last xs))"

text \<open>\<^verbatim>\<open>u.link || u.url || null\<close>.\<close>

definition link_or_url :: "DownloadUrl \<Rightarrow> jsstring option" where
  "link_or_url u = or_null (or_else (link u) (url u))"

text \<open>
  \<^verbatim>\<open>getUrlByQuality\<close>. Of the values of \<^verbatim>\<open>qualityMap[quality]\<close> only the empty string and
  \<^verbatim>\<open>undefined\<close> are false in \<^verbatim>\<open>if (targetBitrate)\<close>. The first argument is the test \<open>native\<close>
  of the engine, handed on to \<^verbatim>\<open>new RegExp(targetBitrate, 'i').test\<close>.
\<close>

definition getUrlByQuality ::
  "(jsstring \<Rightarrow> jsstring \<Rightarrow> bool) \<Rightarrow> DownloadUrl list \<Rightarrow> jsstring \<Rightarrow> error + jsstring option" where
  "getUrlByQuality native downloadUrls q =
     (if q = js ''auto'' then
        (case last_elem downloadUrls of
           Inl e \<Rightarrow> Inl e
         | Inr lastUrl \<Rightarrow> Inr (link_or_url lastUrl))
      else
        (let matchingUrl =
               (case qualityMap q of
                  None \<Rightarrow> None
                | Some targetBitrate \<Rightarrow>
                    if targetBitrate = Str [] then None
                    else find (\<lambda>u. quality u \<noteq> [] \<and> regexp_i_test native targetBitrate (quality u))
                           downloadUrls)
         in case matchingUrl of
              Some m \<Rightarrow> Inr (link_or_url m)
            | None \<Rightarrow>
                (case last_elem downloadUrls of
                   Inl e \<Rightarrow> Inl e
                 | Inr lastUrl \<Rightarrow> Inr (link_or_url lastUrl))))"

record Song =
  downloadUrl :: "DownloadUrl list option"
  download_url :: "DownloadUrl list option"
  media_url :: "jsstring option"
  url :: "jsstring option"
  audio :: "jsstring option"

text \<open>
  \<^verbatim>\<open>extractPlayableUrl\<close>. An array is true in \<^verbatim>\<open>a || b\<close> even when it is empty.
\<close>

definition extractPlayableUrl ::
  "(jsstring \<Rightarrow> jsstring \<Rightarrow> bool) \<Rightarrow> Song option \<Rightarrow> jsstring \<Rightarrow> error + jsstring option" where
  "extractPlayableUrl native songDetails q =
     (case songDetails of None \<Rightarrow> Inr None
      | Some song \<Rightarrow>
          (let downloadUrls =
                 (case downloadUrl song of Some a \<Rightarrow> Some a | None \<Rightarrow> download_url song);
               direct = or_null (or_else (or_else (media_url song) (Song.url song)) (audio song))
           in case downloadUrls of
                None \<Rightarrow> Inr direct
              | Some ds \<Rightarrow> if length ds > 0 then getUrlByQuality native ds q else Inr direct))"

section \<open>Notions of the specification\<close>

text \<open>
  A timestamp tag as the specification writes it, \<^verbatim>\<open>[m{1,2}:ss(.fraction)?]\<close>: an opening
  bracket, one or two digits, a colon, two digits, possibly a dot and at least one
  digit, a closing bracket.
\<close>

definition is_timestamp_tag :: "jsstring \<Rightarrow> bool" where
  "is_timestamp_tag t \<longleftrightarrow>
     (\<exists>mm ss fr. t = LBRACKET # mm @ COLON # ss @ fr @ [RBRACKET] \<and>
        (length mm = 1 \<or> length mm = 2) \<and> list_all is_digit mm \<and>
        length ss = 2 \<and> list_all is_digit ss \<and>
        (fr = [] \<or> (\<exists>fd. fr = DOT # fd \<and> fd \<noteq> [] \<and> list_all is_digit fd)))"

text \<open>A timestamp tag starts at index \<open>i\<close> of \<open>s\<close>; the number of tags a line carries.\<close>

definition timestamp_at :: "jsstring \<Rightarrow> nat \<Rightarrow> bool" where
  "timestamp_at s i \<longleftrightarrow> (\<exists>t post. drop i s = t @ post \<and> is_timestamp_tag t)"

definition timestamp_count :: "jsstring \<Rightarrow> nat" where
  "timestamp_count s = length (filter (timestamp_at s) [0..<length s])"

text \<open>
  A tag \<^verbatim>\<open>[offset:N]\<close> with \<open>N\<close> an optionally signed decimal integer (digits, after a
  plus sign, a minus sign or none), and its value; such a tag starts at index \<open>i\<close> of
  \<open>s\<close>.
\<close>

definition is_offset_tag :: "jsstring \<Rightarrow> int \<Rightarrow> bool" where
  "is_offset_tag t n \<longleftrightarrow>
     (\<exists>ds. ds \<noteq> [] \<and> list_all is_digit ds \<and>
        (t = js ''[offset:'' @ ds @ [RBRACKET] \<and> n = digits_val ds \<or>
         t = js ''[offset:+'' @ ds @ [RBRACKET] \<and> n = digits_val ds \<or>
         t = js ''[offset:-'' @ ds @ [RBRACKET] \<and> n = - digits_val ds))"

definition offset_tag_at :: "jsstring \<Rightarrow> nat \<Rightarrow> int \<Rightarrow> bool" where
  "offset_tag_at s i n \<longleftrightarrow> (\<exists>t post. drop i s = t @ post \<and> is_offset_tag t n)"

text \<open>The same without the plus sign: digits, after a minus sign or none.\<close>

definition is_plain_offset_tag :: "jsstring \<Rightarrow> int \<Rightarrow> bool" where
  "is_plain_offset_tag t n \<longleftrightarrow>
     (\<exists>ds. ds \<noteq> [] \<and> list_all is_digit ds \<and>
        (t = js ''[offset:'' @ ds @ [RBRACKET] \<and> n = digits_val ds \<or>
         t = js ''[offset:-'' @ ds @ [RBRACKET] \<and> n = - digits_val ds))"

definition plain_offset_tag_at :: "jsstring \<Rightarrow> nat \<Rightarrow> int \<Rightarrow> bool" where
  "plain_offset_tag_at s i n \<longleftrightarrow>
     (\<exists>t post. drop i s = t @ post \<and> is_plain_offset_tag t n)"

text \<open>The bitrate substring of each tier that has one.\<close>

definition tiers :: "(jsstring \<times> jsstring) list" where
  "tiers = [(js ''Less_low'', js ''48''), (js ''low'', js ''96''), (js ''medium'', js ''160''),
            (js ''high'', js ''320'')]"

section \<open>Rounding\<close>

lemma bitlength_bounds:
  "0 < n \<Longrightarrow> 1 \<le> bitlength n \<and> 2 ^ nat (bitlength n - 1) \<le> n \<and> n < 2 ^ nat (bitlength n)"
proof (induction n rule: bitlength.induct)
  case (1 n)
  show ?case
  proof (cases "n div 2 = 0")
    case True
    with 1 have "n = 1" by presburger
    then show ?thesis
      by (simp add: bitlength.simps [of 1] bitlength.simps [of 0])
  next
    case False
    with 1 have pos: "0 < n div 2" by presburger
    from 1 have eq: "bitlength n = 1 + bitlength (n div 2)"
      by (simp add: bitlength.simps [of n])
    from 1 pos have IH: "1 \<le> bitlength (n div 2)"
      "2 ^ nat (bitlength (n div 2) - 1) \<le> n div 2"
      "n div 2 < 2 ^ nat (bitlength (n div 2))"
      by simp_all
    define b where "b = bitlength (n div 2)"
    have nb: "nat b = Suc (nat (b - 1))" using IH(1) by (simp add: b_def)
    have "(2::int) ^ nat b = 2 * 2 ^ nat (b - 1)" by (subst nb) simp
    with IH(2) have lo: "2 ^ nat b \<le> n" unfolding b_def by presburger
    have "(2::int) ^ nat (1 + b) = 2 * 2 ^ nat b" using IH(1) by (simp add: b_def nat_add_distrib)
    with IH(3) have hi: "n < 2 ^ nat (1 + b)" unfolding b_def by presburger
    from lo hi IH(1) show ?thesis by (simp add: eq b_def)
  qed
qed

lemma pow2_pos: "0 < pow2 e"
  by (simp add: pow2_def)

lemma pow2_power_int: "pow2 e = power_int 2 e"
  by (simp add: pow2_def power_int_def field_simps)

lemma ilog2_lower: "0 < x \<Longrightarrow> pow2 (ilog2 x) \<le> x"
proof (cases "1 \<le> x")
  case True
  then have fl: "0 < \<lfloor>x\<rfloor>" by simp
  from bitlength_bounds [OF fl]
  have b: "1 \<le> bitlength \<lfloor>x\<rfloor>" "2 ^ nat (bitlength \<lfloor>x\<rfloor> - 1) \<le> \<lfloor>x\<rfloor>" by simp_all
  have "(of_int (2 ^ nat (bitlength \<lfloor>x\<rfloor> - 1)) :: rat) \<le> of_int \<lfloor>x\<rfloor>"
    using b(2) by (simp only: of_int_le_iff)
  also have "\<dots> \<le> x" by simp
  finally show ?thesis using True b(1) by (simp add: ilog2_def pow2_def)
next
  case False
  assume x: "0 < x"
  with False have inv: "1 < 1 / x" by simp
  define m where "m = \<lceil>1 / x\<rceil> - 1"
  from inv have "1 < \<lceil>1 / x\<rceil>" by (simp add: less_ceiling_iff)
  then have m: "0 < m" by (simp add: m_def)
  from bitlength_bounds [OF m] have b: "1 \<le> bitlength m" "m < 2 ^ nat (bitlength m)" by simp_all
  then have "\<lceil>1 / x\<rceil> \<le> 2 ^ nat (bitlength m)" by (simp add: m_def)
  then have "1 / x \<le> of_int (2 ^ nat (bitlength m))" by (simp only: ceiling_le_iff)
  then have "1 / x \<le> 2 ^ nat (bitlength m)" by simp
  with x have "1 / 2 ^ nat (bitlength m) \<le> x"
    by (simp add: field_simps)
  with False b(1) show ?thesis by (simp add: ilog2_def pow2_def m_def)
qed

lemma round_half_even_of_int: "round_half_even (of_int k) = k"
  by (simp add: round_half_even_def)

lemma round_half_even_ge: "1 \<le> q \<Longrightarrow> 1 \<le> round_half_even q"
  by (auto simp: round_half_even_def Let_def le_floor_iff)

lemma round_half_even_le: "q \<le> - 1 \<Longrightarrow> round_half_even q \<le> - 1"
proof -
  assume q: "q \<le> - 1"
  then have f: "\<lfloor>q\<rfloor> \<le> - 1" by (simp add: floor_le_iff)
  show ?thesis
  proof (cases "\<lfloor>q\<rfloor> = - 1")
    case True
    with q have "q = - 1" using of_int_floor_le [of q] by simp
    then have "q = of_int (- 1)" by simp
    then show ?thesis by (simp only: round_half_even_of_int)
  next
    case False
    with f have "\<lfloor>q\<rfloor> + 1 \<le> - 1" by simp
    with f show ?thesis by (auto simp: round_half_even_def Let_def)
  qed
qed

lemma round_half_even_nonneg: "0 \<le> q \<Longrightarrow> 0 \<le> round_half_even q"
  by (auto simp: round_half_even_def Let_def)

lemma rnd_nonneg: "0 \<le> x \<Longrightarrow> 0 \<le> rnd x"
proof -
  assume x: "0 \<le> x"
  define u where "u = pow2 (ilog2 \<bar>x\<bar> - 52)"
  have u: "0 < u" by (simp add: u_def pow2_pos)
  with x have "0 \<le> x / u" by simp
  then have "0 \<le> round_half_even (x / u)" by (rule round_half_even_nonneg)
  then have "0 \<le> (of_int (round_half_even (x / u)) :: rat) * u" using u by simp
  then show ?thesis by (simp add: rnd_def Let_def u_def)
qed

lemma scaled_ge_1:
  assumes "x \<noteq> 0"
  shows "1 \<le> \<bar>x\<bar> / pow2 (ilog2 \<bar>x\<bar> - 52)"
proof -
  have ax: "0 < \<bar>x\<bar>" using assms by simp
  have "pow2 (ilog2 \<bar>x\<bar> - 52) = pow2 (ilog2 \<bar>x\<bar>) / 2 ^ 52"
    by (simp add: pow2_power_int power_int_diff)
  also have "\<dots> \<le> pow2 (ilog2 \<bar>x\<bar>)"
    using pow2_pos [of "ilog2 \<bar>x\<bar>"] by (simp add: field_simps)
  also have "\<dots> \<le> \<bar>x\<bar>" by (rule ilog2_lower [OF ax])
  finally show ?thesis using pow2_pos [of "ilog2 \<bar>x\<bar> - 52"] by (simp add: field_simps)
qed

lemma rnd_pos: "0 < x \<Longrightarrow> 0 < rnd x"
proof -
  assume x: "0 < x"
  then have "1 \<le> x / pow2 (ilog2 \<bar>x\<bar> - 52)" using scaled_ge_1 [of x] by simp
  then have "1 \<le> round_half_even (x / pow2 (ilog2 \<bar>x\<bar> - 52))" by (rule round_half_even_ge)
  then have "0 < (of_int (round_half_even (x / pow2 (ilog2 \<bar>x\<bar> - 52))) :: rat)" by simp
  with x pow2_pos [of "ilog2 \<bar>x\<bar> - 52"] show ?thesis
    by (simp add: rnd_def Let_def)
qed

lemma rnd_neg: "x < 0 \<Longrightarrow> rnd x < 0"
proof -
  assume x: "x < 0"
  then have "1 \<le> - x / pow2 (ilog2 \<bar>x\<bar> - 52)" using scaled_ge_1 [of x] by simp
  then have "x / pow2 (ilog2 \<bar>x\<bar> - 52) \<le> - 1" by simp
  then have "round_half_even (x / pow2 (ilog2 \<bar>x\<bar> - 52)) \<le> - 1" by (rule round_half_even_le)
  then have "(of_int (round_half_even (x / pow2 (ilog2 \<bar>x\<bar> - 52))) :: rat) < 0" by simp
  with x pow2_pos [of "ilog2 \<bar>x\<bar> - 52"] show ?thesis
    by (simp add: rnd_def Let_def mult_neg_pos)
qed

lemma rnd_0: "rnd 0 = 0"
  by (simp add: rnd_def)

lemma rnd_le_0_iff: "rnd x \<le> 0 \<longleftrightarrow> x \<le> 0"
proof (cases x "0::rat" rule: linorder_cases)
  case less
  with rnd_neg [of x] show ?thesis by simp
next
  case equal
  then show ?thesis by (simp add: rnd_0)
next
  case greater
  with rnd_pos [of x] show ?thesis by simp
qed

text \<open>
  The rounding on values known from IEEE 754 arithmetic: the numbers nearest to 0.1 and
  to 1/3, the sum \<^verbatim>\<open>0.1 + 0.2\<close>, which is not the number nearest to 0.3, and the product
  \<^verbatim>\<open>0.29 * 100\<close>, which is below 29.
\<close>

lemma rnd_tenth: "rnd (1 / 10) = 3602879701896397 / 36028797018963968"
  by code_simp

lemma rnd_third: "rnd (1 / 3) = 6004799503160661 / 18014398509481984"
  by code_simp

lemma fadd_tenth_fifth:
  "fadd (3602879701896397 / 36028797018963968) (rnd (2 / 10)) = 1351079888211149 / 4503599627370496 \<and>
   rnd (3 / 10) = 5404319552844595 / 18014398509481984"
  by code_simp

lemma fmul_29_100:
  "fmul (5224175567749775 / 18014398509481984) 100 = 8162774324609023 / 281474976710656"
  by code_simp

lemma round_half_even_error: "\<bar>of_int (round_half_even q) - q\<bar> \<le> 1 / 2"
proof -
  have a: "of_int \<lfloor>q\<rfloor> \<le> q" "q < of_int \<lfloor>q\<rfloor> + 1" by linarith+
  show ?thesis
  proof (cases "q - of_int \<lfloor>q\<rfloor> < 1 / 2")
    case True
    then have "round_half_even q = \<lfloor>q\<rfloor>" by (simp add: round_half_even_def Let_def)
    with True a show ?thesis by simp
  next
    case False
    show ?thesis
    proof (cases "1 / 2 < q - of_int \<lfloor>q\<rfloor>")
      case True
      with False have "round_half_even q = \<lfloor>q\<rfloor> + 1" by (simp add: round_half_even_def Let_def)
      with True a show ?thesis by simp
    next
      case F2: False
      with False have h: "q - of_int \<lfloor>q\<rfloor> = 1 / 2" by simp
      have "round_half_even q = \<lfloor>q\<rfloor> \<or> round_half_even q = \<lfloor>q\<rfloor> + 1"
        using False F2 by (simp add: round_half_even_def Let_def)
      with h show ?thesis by auto
    qed
  qed
qed

lemma ulp_le: "x \<noteq> 0 \<Longrightarrow> pow2 (ilog2 \<bar>x\<bar> - 52) * 2 ^ 52 \<le> \<bar>x\<bar>"
proof -
  assume "x \<noteq> 0"
  then have ax: "0 < \<bar>x\<bar>" by simp
  have "pow2 (ilog2 \<bar>x\<bar> - 52) = pow2 (ilog2 \<bar>x\<bar>) / 2 ^ 52"
    by (simp add: pow2_power_int power_int_diff)
  then have "pow2 (ilog2 \<bar>x\<bar> - 52) * 2 ^ 52 = pow2 (ilog2 \<bar>x\<bar>)" by simp
  also have "\<dots> \<le> \<bar>x\<bar>" by (rule ilog2_lower [OF ax])
  finally show ?thesis .
qed

lemma rnd_error: "\<bar>rnd x - x\<bar> \<le> \<bar>x\<bar> / 2 ^ 53"
proof (cases "x = 0")
  case True
  then show ?thesis by (simp add: rnd_0)
next
  case False
  define u where "u = pow2 (ilog2 \<bar>x\<bar> - 52)"
  have u: "0 < u" by (simp add: u_def pow2_pos)
  have r: "rnd x = of_int (round_half_even (x / u)) * u"
    using False by (simp add: rnd_def Let_def u_def)
  have "rnd x - x = (of_int (round_half_even (x / u)) - x / u) * u"
    using u by (simp add: r field_simps)
  then have "\<bar>rnd x - x\<bar> = \<bar>of_int (round_half_even (x / u)) - x / u\<bar> * u"
    using u by (simp add: abs_mult)
  also have "\<dots> \<le> 1 / 2 * u"
    using u round_half_even_error [of "x / u"] by (intro mult_right_mono) simp_all
  also have "\<dots> \<le> \<bar>x\<bar> / 2 ^ 53"
    using ulp_le [OF False] by (simp add: u_def)
  finally show ?thesis .
qed

section \<open>The timestamp expression and the tags of the specification\<close>

lemma not_digit_specials [simp]:
  "\<not> is_digit COLON" "\<not> is_digit RBRACKET" "\<not> is_digit DOT" "\<not> is_digit LBRACKET" "\<not> is_digit MINUS"
  by (simp_all add: is_digit_def)

lemma takeWhile_all: "list_all P xs \<Longrightarrow> \<not> P c \<Longrightarrow> takeWhile P (xs @ c # r) = xs"
  by (induction xs) auto

lemma takeWhile_take_all: "list_all P xs \<Longrightarrow> length xs = n \<Longrightarrow> takeWhile P (take n (xs @ r)) = xs"
  by (induction xs arbitrary: n) auto

lemma match_timestamp_complete:
  assumes "length mm = 1 \<or> length mm = 2" "list_all is_digit mm"
    "length ss = 2" "list_all is_digit ss"
    "fr = [] \<or> (\<exists>fd. fr = DOT # fd \<and> fd \<noteq> [] \<and> list_all is_digit fd)"
  shows "match_timestamp (LBRACKET # mm @ COLON # ss @ fr @ RBRACKET # post)
         = Some (mm, ss @ fr, length mm + length fr + 5)"
proof -
  have g1: "takeWhile is_digit (take 2 (mm @ COLON # ss @ fr @ RBRACKET # post)) = mm"
  proof (cases "length mm = 2")
    case True
    with assms(2) show ?thesis by (intro takeWhile_take_all)
  next
    case False
    with assms(1) have "length mm = 1" by simp
    then obtain d where mm: "mm = [d]" by (cases mm) auto
    with assms(2) show ?thesis by simp
  qed
  from assms(1) have mmne: "mm \<noteq> []" by auto
  have ss: "take 2 (ss @ fr @ RBRACKET # post) = ss" "drop 2 (ss @ fr @ RBRACKET # post) = fr @ RBRACKET # post"
    using assms(3) by simp_all
  from assms(5) show ?thesis
  proof
    assume "fr = []"
    then show ?thesis
      using g1 mmne ss assms(3,4) by (simp add: match_timestamp_def Let_def)
  next
    assume "\<exists>fd. fr = DOT # fd \<and> fd \<noteq> [] \<and> list_all is_digit fd"
    then obtain fd where fd: "fr = DOT # fd" "fd \<noteq> []" "list_all is_digit fd" by blast
    have "takeWhile is_digit (fd @ RBRACKET # post) = fd"
      using fd(3) by (simp add: takeWhile_all)
    then show ?thesis
      using g1 mmne ss assms(3,4) fd by (simp add: match_timestamp_def Let_def)
  qed
qed

lemma takeWhile_take_prefix:
  "takeWhile P (take n xs) = g \<Longrightarrow> xs = g @ drop (length g) xs \<and> length g \<le> n \<and> list_all P g"
proof -
  assume g: "takeWhile P (take n xs) = g"
  have "take n xs = g @ dropWhile P (take n xs)" using g by (metis takeWhile_dropWhile_id)
  then have pre: "prefix g (take n xs)" by (metis prefixI)
  then have "prefix g xs" by (meson prefix_order.trans take_is_prefix)
  then have 1: "xs = g @ drop (length g) xs" by (metis append_eq_conv_conj prefixE)
  from pre have 2: "length g \<le> n" by (metis length_take min.cobounded2 prefix_length_le order_trans)
  have 3: "list_all P g" using g by (auto simp: list_all_iff dest: set_takeWhileD)
  from 1 2 3 show ?thesis by blast
qed

lemma match_timestamp_sound:
  assumes "match_timestamp s = Some (g1, g2, n)"
  shows "\<exists>ss fr post. s = LBRACKET # g1 @ COLON # ss @ fr @ RBRACKET # post \<and>
           (length g1 = 1 \<or> length g1 = 2) \<and> list_all is_digit g1 \<and>
           length ss = 2 \<and> list_all is_digit ss \<and>
           (fr = [] \<or> (\<exists>fd. fr = DOT # fd \<and> fd \<noteq> [] \<and> list_all is_digit fd)) \<and>
           g2 = ss @ fr \<and> n = length g1 + length fr + 5"
proof -
  from assms obtain r0 where s: "s = LBRACKET # r0"
    by (cases s) (auto simp: match_timestamp_def split: if_splits)
  define g where "g = takeWhile is_digit (take 2 r0)"
  from takeWhile_take_prefix [of is_digit 2 r0 g]
  have g: "r0 = g @ drop (length g) r0" "length g \<le> 2" "list_all is_digit g" by (simp_all add: g_def)
  from assms s have gne: "g \<noteq> []"
    by (auto simp: match_timestamp_def Let_def g_def split: if_splits)
  from assms s gne obtain r2 where r1: "drop (length g) r0 = COLON # r2"
    by (auto simp: match_timestamp_def Let_def g_def split: if_splits list.splits)
  define ss where "ss = take 2 r2"
  from assms s gne r1 have ssp: "length ss = 2" "list_all is_digit ss"
    by (auto simp: match_timestamp_def Let_def g_def ss_def split: if_splits list.splits)
  have r2: "r2 = ss @ drop 2 r2" by (simp add: ss_def)
  from assms s gne r1 ssp obtain c3 r4 where r3: "drop 2 r2 = c3 # r4"
    by (auto simp: match_timestamp_def Let_def g_def ss_def split: if_splits list.splits)
  have glen: "length g = 1 \<or> length g = 2" using gne g(2)
    by (cases g) (auto simp: le_Suc_eq)
  show ?thesis
  proof (cases "c3 = RBRACKET")
    case True
    with assms s gne r1 ssp r3 have res: "g1 = g" "g2 = ss" "n = length g + 5"
      by (auto simp: match_timestamp_def Let_def g_def ss_def split: if_splits list.splits)
    have "s = LBRACKET # g @ COLON # ss @ [] @ RBRACKET # r4"
      using s g(1) r1 r2 r3 True by (metis append_Nil)
    with res glen g(3) ssp show ?thesis by (intro exI [of _ ss] exI [of _ "[]"] exI [of _ r4]) simp
  next
    case False
    with assms s gne r1 ssp r3 have dot: "c3 = DOT"
      by (auto simp: match_timestamp_def Let_def g_def ss_def split: if_splits list.splits)
    define fd where "fd = takeWhile is_digit r4"
    have fdp: "list_all is_digit fd" by (auto simp: fd_def list_all_iff dest: set_takeWhileD)
    have r4: "r4 = fd @ drop (length fd) r4"
      by (metis fd_def takeWhile_dropWhile_id dropWhile_eq_drop)
    from assms s gne r1 ssp r3 dot False have fdne: "fd \<noteq> []"
      by (auto simp: match_timestamp_def Let_def g_def ss_def fd_def split: if_splits list.splits)
    from assms s gne r1 ssp r3 dot False fdne obtain r6 where r5: "drop (length fd) r4 = RBRACKET # r6"
      by (auto simp: match_timestamp_def Let_def g_def ss_def fd_def split: if_splits list.splits)
    from assms s gne r1 ssp r3 dot False fdne r5
    have res: "g1 = g" "g2 = ss @ DOT # fd" "n = length g + length fd + 6"
      by (auto simp: match_timestamp_def Let_def g_def ss_def fd_def split: if_splits list.splits)
    have "s = LBRACKET # g @ COLON # ss @ (DOT # fd) @ RBRACKET # r6"
      using s g(1) r1 r2 r3 dot r4 r5 by (metis append_Cons append_assoc)
    with res glen g(3) ssp fdp fdne show ?thesis
      by (intro exI [of _ ss] exI [of _ "DOT # fd"] exI [of _ r6]) simp
  qed
qed

lemma timestamp_at_iff: "timestamp_at s i \<longleftrightarrow> match_timestamp (drop i s) \<noteq> None"
proof
  assume "timestamp_at s i"
  then obtain t post mm ss fr where
    d: "drop i s = t @ post" and t: "t = LBRACKET # mm @ COLON # ss @ fr @ [RBRACKET]" and
    c: "length mm = 1 \<or> length mm = 2" "list_all is_digit mm" "length ss = 2"
       "list_all is_digit ss"
       "fr = [] \<or> (\<exists>fd. fr = DOT # fd \<and> fd \<noteq> [] \<and> list_all is_digit fd)"
    unfolding timestamp_at_def is_timestamp_tag_def by blast
  from d t have "drop i s = LBRACKET # mm @ COLON # ss @ fr @ RBRACKET # post" by simp
  with match_timestamp_complete [OF c, of post] show "match_timestamp (drop i s) \<noteq> None" by simp
next
  assume "match_timestamp (drop i s) \<noteq> None"
  then obtain g1 g2 n where "match_timestamp (drop i s) = Some (g1, g2, n)" by auto
  from match_timestamp_sound [OF this] obtain ss fr post where
    d: "drop i s = LBRACKET # g1 @ COLON # ss @ fr @ RBRACKET # post" and
    c: "length g1 = 1 \<or> length g1 = 2" "list_all is_digit g1" "length ss = 2"
       "list_all is_digit ss"
       "fr = [] \<or> (\<exists>fd. fr = DOT # fd \<and> fd \<noteq> [] \<and> list_all is_digit fd)"
    by blast
  have "is_timestamp_tag (LBRACKET # g1 @ COLON # ss @ fr @ [RBRACKET])"
    unfolding is_timestamp_tag_def using c by blast
  moreover have "drop i s = (LBRACKET # g1 @ COLON # ss @ fr @ [RBRACKET]) @ post"
    using d by simp
  ultimately show "timestamp_at s i" unfolding timestamp_at_def by blast
qed

lemma timestamp_at_eq: "timestamp_at s = (\<lambda>i. match_timestamp (drop i s) \<noteq> None)"
  by (rule ext) (rule timestamp_at_iff)

lemma match_timestamp_head: "match_timestamp (c # cs) = Some m \<Longrightarrow> c = LBRACKET"
  by (auto simp: match_timestamp_def split: if_splits)

lemma match_timestamp_inside:
  assumes "match_timestamp (c # cs) = Some (g1, g2, n)"
  shows "\<forall>x\<in>set (take (n - 1) cs). x \<noteq> LBRACKET"
proof -
  from match_timestamp_sound [OF assms] obtain ss fr post where
    d: "c # cs = LBRACKET # g1 @ COLON # ss @ fr @ RBRACKET # post" and
    c: "list_all is_digit g1" "length ss = 2" "list_all is_digit ss"
       "fr = [] \<or> (\<exists>fd. fr = DOT # fd \<and> fd \<noteq> [] \<and> list_all is_digit fd)" and
    n: "n = length g1 + length fr + 5"
    by blast
  from d have cs: "cs = (g1 @ COLON # ss @ fr @ [RBRACKET]) @ post" by simp
  have len: "n - 1 = length (g1 @ COLON # ss @ fr @ [RBRACKET])" using n c(2) by simp
  have tk: "take (n - 1) cs = g1 @ COLON # ss @ fr @ [RBRACKET]"
    unfolding len by (subst cs) simp
  have dig: "x \<noteq> LBRACKET" if "is_digit x" for x
    using that by auto
  have digs: "\<forall>x\<in>set ds. x \<noteq> LBRACKET" if "list_all is_digit ds" for ds
    using that dig unfolding list_all_iff by blast
  have fr: "\<forall>x\<in>set fr. x \<noteq> LBRACKET"
  proof (cases "fr = []")
    case True
    then show ?thesis by simp
  next
    case False
    with c(4) obtain fd where "fr = DOT # fd" "list_all is_digit fd" by blast
    with digs [of fd] show ?thesis by simp
  qed
  show ?thesis unfolding tk using digs [OF c(1)] digs [OF c(3)] fr by auto
qed

lemma timestamp_count_Nil: "timestamp_count [] = 0"
  by (simp add: timestamp_count_def)

lemma timestamp_count_Cons:
  "timestamp_count (c # cs) =
     (if match_timestamp (c # cs) = None then 0 else 1) + timestamp_count cs"
proof -
  have "[0..<length (c # cs)] = 0 # map Suc [0..<length cs]"
    by (simp add: upt_conv_Cons map_Suc_upt del: upt_Suc)
  then show ?thesis
    by (simp add: timestamp_count_def timestamp_at_eq filter_map comp_def del: not_None_eq upt_Suc)
qed

lemma length_ts_matchAll:
  "\<forall>x\<in>set (take k s). x \<noteq> LBRACKET \<Longrightarrow> length (ts_matchAll k s) = timestamp_count s"
proof (induction k s rule: ts_matchAll.induct)
  case (1 k)
  show ?case by (simp add: timestamp_count_Nil)
next
  case (2 k c cs)
  from "2.prems" have c: "c \<noteq> LBRACKET" and rest: "\<forall>x\<in>set (take k cs). x \<noteq> LBRACKET" by simp_all
  from c have "match_timestamp (c # cs) = None"
    using match_timestamp_head [of c cs] by (cases "match_timestamp (c # cs)") auto
  with "2.IH" [OF rest] show ?case by (simp add: timestamp_count_Cons)
next
  case (3 c cs)
  show ?case
  proof (cases "match_timestamp (c # cs)")
    case None
    with "3.IH"(1) [OF None] show ?thesis by (simp add: timestamp_count_Cons)
  next
    case (Some m)
    obtain g1 g2 n where m: "m = (g1, g2, n)" by (cases m)
    with Some have eq: "match_timestamp (c # cs) = Some (g1, g2, n)" by simp
    from match_timestamp_inside [OF eq]
    have "\<forall>x\<in>set (take (n - 1) cs). x \<noteq> LBRACKET" .
    with "3.IH"(2) [OF eq refl refl]
    have "length (ts_matchAll (n - 1) cs) = timestamp_count cs" .
    then show ?thesis
      by (simp add: timestamp_count_Cons eq)
  qed
qed

lemma ts_matchAll_timestamp_at:
  "ts_matchAll k s \<noteq> [] \<Longrightarrow> \<exists>i. timestamp_at s i"
proof (induction k s rule: ts_matchAll.induct)
  case (1 k)
  then show ?case by simp
next
  case (2 k c cs)
  then obtain i where "timestamp_at cs i" by auto
  then have "timestamp_at (c # cs) (Suc i)" by (simp add: timestamp_at_iff)
  then show ?case ..
next
  case (3 c cs)
  show ?case
  proof (cases "match_timestamp (c # cs)")
    case None
    with 3 obtain i where "timestamp_at cs i" by auto
    then have "timestamp_at (c # cs) (Suc i)" by (simp add: timestamp_at_iff)
    then show ?thesis ..
  next
    case (Some m)
    then have "timestamp_at (c # cs) 0" by (simp add: timestamp_at_iff)
    then show ?thesis ..
  qed
qed

lemma no_timestamp_code:
  "(\<forall>i. \<not> timestamp_at s i) \<longleftrightarrow> list_all (\<lambda>i. match_timestamp (drop i s) = None) [0..<length s]"
proof -
  have "match_timestamp (drop i s) = None" if "length s \<le> i" for i
    using that by (simp add: match_timestamp_def)
  then show ?thesis
    unfolding timestamp_at_iff list_all_iff
    by (auto simp: not_less [symmetric] simp del: not_None_eq)
qed

lemma timestamp_count_code:
  "timestamp_count s = length (filter (\<lambda>i. match_timestamp (drop i s) \<noteq> None) [0..<length s])"
  by (simp add: timestamp_count_def timestamp_at_eq del: not_None_eq)

text \<open>The lines of a text without timestamps push nothing, whatever the state.\<close>

lemma processLine_no_timestamp:
  "\<forall>i. \<not> timestamp_at line i \<Longrightarrow> processLine li line = ([], li)"
  using ts_matchAll_timestamp_at [of li line] by (auto simp: processLine_def Let_def)

lemma forEachLine_no_timestamp:
  "\<forall>line\<in>set ls. \<forall>i. \<not> timestamp_at line i \<Longrightarrow> forEachLine li ls = ([], li)"
  by (induction ls arbitrary: li) (simp_all add: processLine_no_timestamp)

lemma sort_by_Nil: "sort_by cmp [] = []"
  by (simp add: sort_by_def)

section \<open>Text without timestamps\<close>

text \<open>
  C7. \<^verbatim>\<open>parseLrcLyrics\<close> has no failure: the model is a total function with no error
  value, since nothing in the source throws. For the empty string, and for a text none
  of whose lines holds a timestamp tag (plain lines, malformed tags), it returns the
  empty sequence, whatever \<^verbatim>\<open>lastIndex\<close> the shared expression has, and leaves that
  \<^verbatim>\<open>lastIndex\<close> as it was.
\<close>

theorem parseLrcLyrics_without_timestamps:
  "parseLrcLyrics li [] = ([], li) \<and>
   ((\<forall>line\<in>set (split NEWLINE s). \<forall>i. \<not> timestamp_at line i) \<longrightarrow>
      parseLrcLyrics li s = ([], li))"
  by (simp add: parseLrcLyrics_def forEachLine_no_timestamp sort_by_Nil)

theorem parseLrcLyrics_without_timestamps_witness:
  "parseLrcLyrics 0 (js ''plain line with no tags'') = ([], 0) \<and>
   parseLrcLyrics 7 (js ''[1:2] [ab:cd]\<newline>[00:1.5] [12:34.]'') = ([], 7)"
proof -
  have 1: "\<forall>line\<in>set (split NEWLINE (js ''plain line with no tags'')). \<forall>i. \<not> timestamp_at line i"
    unfolding no_timestamp_code by code_simp
  have 2: "\<forall>line\<in>set (split NEWLINE (js ''[1:2] [ab:cd]\<newline>[00:1.5] [12:34.]'')). \<forall>i. \<not> timestamp_at line i"
    unfolding no_timestamp_code by code_simp
  from 1 2 show ?thesis
    using parseLrcLyrics_without_timestamps [of 0 "js ''plain line with no tags''"]
      parseLrcLyrics_without_timestamps [of 7 "js ''[1:2] [ab:cd]\<newline>[00:1.5] [12:34.]''"]
    by blast
qed

section \<open>Sorting by time\<close>

lemma compareTime_le: "compareTime a b \<le> 0 \<longleftrightarrow> time a \<le> time b"
  by (simp add: compareTime_def fsub_def rnd_le_0_iff)

lemma insert_by_compareTime: "insert_by compareTime x ys = insort_key time x ys"
  by (induction ys) (simp_all add: compareTime_le)

lemma sort_by_compareTime: "sort_by compareTime xs = sort_key time xs"
  by (induction xs) (simp_all add: sort_by_def insert_by_compareTime)

section \<open>The times of the entries\<close>

lemma digit_val_range: "is_digit c \<Longrightarrow> 0 \<le> digit_val c \<and> digit_val c \<le> 9"
  unfolding is_digit_def digit_val_def word_le_def by simp

lemma foldl_digits_nonneg:
  "0 \<le> a \<Longrightarrow> list_all is_digit ds \<Longrightarrow> 0 \<le> foldl (\<lambda>a c. 10 * a + digit_val c) a ds"
proof (induction ds arbitrary: a)
  case Nil
  then show ?case by simp
next
  case (Cons d ds)
  from Cons.prems have "0 \<le> 10 * a + digit_val d"
    using digit_val_range [of d] by simp
  with Cons show ?case by simp
qed

lemma digits_val_nonneg: "list_all is_digit ds \<Longrightarrow> 0 \<le> digits_val ds"
  by (simp add: digits_val_def foldl_digits_nonneg)

lemma list_all_takeWhile: "list_all P (takeWhile P xs)"
  by (auto simp: list_all_iff dest: set_takeWhileD)

lemma parseFloat_nonneg: "0 \<le> parseFloat s"
proof -
  have "0 \<le> (of_int (digits_val ds) :: rat)" if "list_all is_digit ds" for ds
    using digits_val_nonneg [OF that] by simp
  then show ?thesis
    unfolding parseFloat_def Let_def
    by (intro rnd_nonneg add_nonneg_nonneg divide_nonneg_nonneg)
       (auto simp: list_all_takeWhile split: list.splits)
qed

lemma parseInt_digits_nonneg: "list_all is_digit ds \<Longrightarrow> 0 \<le> parseInt ds"
proof (cases ds)
  case Nil
  then show ?thesis by (simp add: parseInt_def)
next
  case (Cons c cs)
  assume "list_all is_digit ds"
  with Cons have c: "c \<noteq> MINUS" by auto
  have "0 \<le> digits_val (takeWhile is_digit ds)"
    by (rule digits_val_nonneg) (rule list_all_takeWhile)
  then have "0 \<le> rnd (of_int (digits_val (takeWhile is_digit ds)))"
    by (intro rnd_nonneg) simp
  with Cons c show ?thesis by (simp add: parseInt_def)
qed

lemma lineTime_nonneg: "list_all is_digit (fst m) \<Longrightarrow> 0 \<le> lineTime m"
  unfolding lineTime_def Let_def fadd_def fmul_def
  by (intro rnd_nonneg add_nonneg_nonneg mult_nonneg_nonneg parseInt_digits_nonneg
      parseFloat_nonneg) simp_all

lemma ts_matchAll_digits: "m \<in> set (ts_matchAll k s) \<Longrightarrow> list_all is_digit (fst m)"
proof (induction k s rule: ts_matchAll.induct)
  case (1 k)
  then show ?case by simp
next
  case (2 k c cs)
  then show ?case by simp
next
  case (3 c cs)
  show ?case
  proof (cases "match_timestamp (c # cs)")
    case None
    with 3 show ?thesis by simp
  next
    case (Some r)
    obtain g1 g2 n where r: "r = (g1, g2, n)" by (cases r)
    with Some have eq: "match_timestamp (c # cs) = Some (g1, g2, n)" by simp
    from match_timestamp_sound [OF eq] have g1: "list_all is_digit g1" by blast
    from "3.prems" eq have "m = (g1, g2) \<or> m \<in> set (ts_matchAll (n - 1) cs)" by simp
    then show ?thesis
    proof
      assume "m = (g1, g2)"
      with g1 show ?thesis by simp
    next
      assume "m \<in> set (ts_matchAll (n - 1) cs)"
      with "3.IH"(2) [OF eq refl refl] show ?thesis .
    qed
  qed
qed

section \<open>One line, and the lines in turn\<close>

lemma processLine_time: "e \<in> set (fst (processLine li line)) \<Longrightarrow> 0 \<le> time e"
proof -
  assume "e \<in> set (fst (processLine li line))"
  then obtain m where m: "m \<in> set (ts_matchAll li line)" and e: "time e = lineTime m"
    by (auto simp: processLine_def lineEntry_def Let_def split: if_splits)
  from ts_matchAll_digits [OF m] have "0 \<le> lineTime m" by (rule lineTime_nonneg)
  with e show ?thesis by simp
qed

text \<open>The text of an entry has lost the white space around it, not the white space inside.\<close>

lemma parseLrcLyrics_trims_text:
  "trim (js '' a b  '') = js ''a b'' \<and>
   fst (parseLrcLyrics 0 (js ''[00:01.00]  Hi there  '')) = [\<lparr>time = 1, text = js ''Hi there''\<rparr>]"
  by code_simp

lemma processLine_text: "e \<in> set (fst (processLine li line)) \<Longrightarrow> text e = trim (ts_remove 0 line)"
  by (auto simp: processLine_def lineEntry_def Let_def split: if_splits)

lemma processLine_blank: "trim (meta_remove 0 line) = [] \<Longrightarrow> processLine li line = ([], li)"
  by (simp add: processLine_def)

lemma processLine_length:
  "trim (meta_remove 0 line) \<noteq> [] \<Longrightarrow> length (fst (processLine 0 line)) = timestamp_count line"
  using length_ts_matchAll [of 0 line] by (auto simp: processLine_def Let_def)

lemma processLine_state_0: "snd (processLine 0 line) = 0"
  by (simp add: processLine_def Let_def)

lemma forEachLine_0:
  "forEachLine 0 ls = (concat (map (\<lambda>line. fst (processLine 0 line)) ls), 0)"
proof (induction ls)
  case Nil
  show ?case by simp
next
  case (Cons l ls)
  then show ?case by (simp add: case_prod_beta processLine_state_0)
qed

lemma forEachLine_time: "e \<in> set (fst (forEachLine li ls)) \<Longrightarrow> 0 \<le> time e"
proof (induction ls arbitrary: li)
  case Nil
  then show ?case by simp
next
  case (Cons l ls)
  from Cons.prems have "e \<in> set (fst (processLine li l)) \<or>
      e \<in> set (fst (forEachLine (snd (processLine li l)) ls))"
    by (simp add: case_prod_beta Let_def)
  with Cons.IH show ?case by (auto dest: processLine_time)
qed

lemma parseLrcLyrics_sort:
  "fst (parseLrcLyrics li s) = sort_key time (fst (forEachLine li (split NEWLINE s)))"
proof (cases "s = []")
  case True
  then show ?thesis by (simp add: parseLrcLyrics_def processLine_def trim_def)
next
  case False
  then show ?thesis by (simp add: parseLrcLyrics_def case_prod_beta sort_by_compareTime)
qed

section \<open>Order and entries of the parsed sequence\<close>

text \<open>
  C4, as the code has it. Whatever \<^verbatim>\<open>lastIndex\<close> the shared expression starts with, the
  sequence \<^verbatim>\<open>parseLrcLyrics\<close> returns is sorted ascending by time, every time in it is
  non-negative, and the entries of one time stand in the order in which the lines pushed
  them (the sort is stable). In a call that starts with \<^verbatim>\<open>lastIndex = 0\<close> the entries
  pushed are those of the lines one after the other, where a line that is blank once
  its metadata tags are removed pushes nothing, a line that is not pushes one entry per
  timestamp tag it carries, and every entry of a line has the line's text with the
  timestamps removed, trimmed.
\<close>

theorem parseLrcLyrics_sorted_stable_entries:
  "sorted (map time (fst (parseLrcLyrics li s))) \<and>
   (\<forall>e\<in>set (fst (parseLrcLyrics li s)). 0 \<le> time e) \<and>
   (\<forall>t. filter (\<lambda>e. time e = t) (fst (parseLrcLyrics li s)) =
        filter (\<lambda>e. time e = t) (fst (forEachLine li (split NEWLINE s)))) \<and>
   fst (forEachLine 0 (split NEWLINE s)) =
     concat (map (\<lambda>line. fst (processLine 0 line)) (split NEWLINE s)) \<and>
   (\<forall>line. (trim (meta_remove 0 line) = [] \<longrightarrow> fst (processLine 0 line) = []) \<and>
           (trim (meta_remove 0 line) \<noteq> [] \<longrightarrow>
              length (fst (processLine 0 line)) = timestamp_count line) \<and>
           (\<forall>e\<in>set (fst (processLine 0 line)). text e = trim (ts_remove 0 line)))"
proof (intro conjI allI ballI impI)
  show "sorted (map time (fst (parseLrcLyrics li s)))"
    by (simp add: parseLrcLyrics_sort)
  show "0 \<le> time e" if "e \<in> set (fst (parseLrcLyrics li s))" for e
    using that by (simp add: parseLrcLyrics_sort forEachLine_time)
  show "filter (\<lambda>e. time e = t) (fst (parseLrcLyrics li s)) =
        filter (\<lambda>e. time e = t) (fst (forEachLine li (split NEWLINE s)))" for t
    by (simp only: parseLrcLyrics_sort sort_key_stable)
  show "fst (forEachLine 0 (split NEWLINE s)) =
     concat (map (\<lambda>line. fst (processLine 0 line)) (split NEWLINE s))"
    by (simp add: forEachLine_0)
  show "fst (processLine 0 line) = []" if "trim (meta_remove 0 line) = []" for line
    using that by (simp add: processLine_blank)
  show "length (fst (processLine 0 line)) = timestamp_count line"
    if "trim (meta_remove 0 line) \<noteq> []" for line
    using that by (rule processLine_length)
  show "text e = trim (ts_remove 0 line)" if "e \<in> set (fst (processLine 0 line))" for e line
    using that by (rule processLine_text)
qed

theorem parseLrcLyrics_sorted_stable_entries_witness:
  "sorted (map time (fst (parseLrcLyrics 0 (js ''[00:05.00][00:03.00]Same text\<newline>[00:03.00]b'')))) \<and>
   fst (parseLrcLyrics 0 (js ''[00:05.00][00:03.00]Same text\<newline>[00:03.00]b'')) =
     [\<lparr>time = 3, text = js ''Same text''\<rparr>, \<lparr>time = 3, text = js ''b''\<rparr>,
      \<lparr>time = 5, text = js ''Same text''\<rparr>] \<and>
   timestamp_count (js ''[00:05.00][00:03.00]Same text'') = 2 \<and>
   length (fst (processLine 0 (js ''[00:05.00][00:03.00]Same text''))) = 2"
proof -
  have c: "timestamp_count (js ''[00:05.00][00:03.00]Same text'') = 2"
    unfolding timestamp_count_code by code_simp
  have n: "trim (meta_remove 0 (js ''[00:05.00][00:03.00]Same text'')) \<noteq> []"
    by code_simp
  have v: "fst (parseLrcLyrics 0 (js ''[00:05.00][00:03.00]Same text\<newline>[00:03.00]b'')) =
     [\<lparr>time = 3, text = js ''Same text''\<rparr>, \<lparr>time = 3, text = js ''b''\<rparr>,
      \<lparr>time = 5, text = js ''Same text''\<rparr>]"
    by code_simp
  note T = parseLrcLyrics_sorted_stable_entries
    [of 0 "js ''[00:05.00][00:03.00]Same text\<newline>[00:03.00]b''"]
  have s: "sorted (map time (fst (parseLrcLyrics 0
      (js ''[00:05.00][00:03.00]Same text\<newline>[00:03.00]b''))))"
    using T by (rule conjunct1)
  have "length (fst (processLine 0 (js ''[00:05.00][00:03.00]Same text''))) =
      timestamp_count (js ''[00:05.00][00:03.00]Same text'')"
    using T [THEN conjunct2, THEN conjunct2, THEN conjunct2, THEN conjunct2, THEN spec,
        THEN conjunct2, THEN conjunct1, THEN mp, OF n] .
  with c have l: "length (fst (processLine 0 (js ''[00:05.00][00:03.00]Same text''))) = 2"
    by (simp only:)
  from s v c l show ?thesis by (intro conjI)
qed

text \<open>
  One entry per timestamp tag fails for a line whose timestamp tag lies inside a metadata
  tag: the line is blank once the metadata tag is removed, and is skipped.
\<close>

theorem parseLrcLyrics_timestamp_in_metadata:
  "timestamp_count (js ''[ti:[00:01.00]'') = 1 \<and>
   fst (parseLrcLyrics 0 (js ''[ti:[00:01.00]'')) = []"
proof
  show "timestamp_count (js ''[ti:[00:01.00]'') = 1"
    unfolding timestamp_count_code by code_simp
  show "fst (parseLrcLyrics 0 (js ''[ti:[00:01.00]'')) = []"
    by code_simp
qed

section \<open>The shared timestamp expression\<close>

text \<open>
  C1 asks that \<^verbatim>\<open>isLrcFormat\<close> answer the same on every call and leave a later
  \<^verbatim>\<open>parseLrcLyrics\<close> alone. The code shares one global expression between the two: on
  the text \<^verbatim>\<open>[00:01.00]Hello\<close> a first call of \<^verbatim>\<open>isLrcFormat\<close> answers true and leaves
  \<^verbatim>\<open>lastIndex = 10\<close>; a second call, starting there, answers false; and
  \<^verbatim>\<open>parseLrcLyrics\<close> called after the first one, starting there, returns no line where
  a fresh call returns one.
\<close>

theorem isLrcFormat_depends_on_lastIndex:
  "isLrcFormat 0 (js ''[00:01.00]Hello'') = (True, 10) \<and>
   isLrcFormat 10 (js ''[00:01.00]Hello'') = (False, 0) \<and>
   fst (parseLrcLyrics 0 (js ''[00:01.00]Hello'')) = [\<lparr>time = 1, text = js ''Hello''\<rparr>] \<and>
   fst (parseLrcLyrics 10 (js ''[00:01.00]Hello'')) = []"
  by code_simp

text \<open>
  What does hold. \<^verbatim>\<open>matchAll\<close> is the expression executed again and again from where the
  last match ended, as ECMAScript defines it; and from \<^verbatim>\<open>lastIndex = 0\<close>, \<^verbatim>\<open>isLrcFormat\<close>
  answers whether the text holds a timestamp tag.
\<close>

lemma ts_matchAll_drop: "ts_matchAll k s = ts_matchAll 0 (drop k s)"
proof (induction s arbitrary: k)
  case Nil
  show ?case by simp
next
  case (Cons c cs)
  show ?case
  proof (cases k)
    case 0
    then show ?thesis by simp
  next
    case (Suc k')
    with Cons [of k'] show ?thesis by simp
  qed
qed

lemma match_timestamp_length:
  "match_timestamp s = Some (g1, g2, n) \<Longrightarrow> 0 < n \<and> n \<le> length s"
proof -
  assume "match_timestamp s = Some (g1, g2, n)"
  from match_timestamp_sound [OF this] obtain ss fr post where
    "s = LBRACKET # g1 @ COLON # ss @ fr @ RBRACKET # post" "length ss = 2"
    "n = length g1 + length fr + 5"
    by blast
  then show ?thesis by simp
qed

lemma ts_search_None: "ts_search i s = None \<Longrightarrow> ts_matchAll 0 s = []"
  by (induction s arbitrary: i) (auto split: option.splits)

lemma ts_search_Some:
  "ts_search i s = Some (m, e) \<Longrightarrow>
     i < e \<and> e \<le> i + length s \<and> ts_matchAll 0 s = m # ts_matchAll 0 (drop (e - i) s)"
proof (induction s arbitrary: i)
  case Nil
  then show ?case by simp
next
  case (Cons c cs)
  show ?case
  proof (cases "match_timestamp (c # cs)")
    case None
    with Cons.prems have "ts_search (Suc i) cs = Some (m, e)" by simp
    from Cons.IH [OF this] have
      "Suc i < e" "e \<le> Suc i + length cs" "ts_matchAll 0 cs = m # ts_matchAll 0 (drop (e - Suc i) cs)"
      by simp_all
    moreover from \<open>Suc i < e\<close> have "drop (e - i) (c # cs) = drop (e - Suc i) cs"
      by (simp add: drop_Cons' )
    ultimately show ?thesis using None by simp
  next
    case (Some r)
    obtain g1 g2 n where r: "r = (g1, g2, n)" by (cases r)
    with Some have eq: "match_timestamp (c # cs) = Some (g1, g2, n)" by simp
    from match_timestamp_length [OF eq] have n: "0 < n" "n \<le> length (c # cs)" by simp_all
    from Cons.prems eq have me: "m = (g1, g2)" "e = i + n" by simp_all
    from n(1) have "drop n (c # cs) = drop (n - 1) cs" by (simp add: drop_Cons')
    with eq me n show ?thesis
      using ts_matchAll_drop [of "n - 1" cs] by simp
  qed
qed

lemma ts_matchAll_exec:
  "ts_matchAll li s =
     (case ts_exec li s of (None, e) \<Rightarrow> [] | (Some m, e) \<Rightarrow> m # ts_matchAll e s)"
proof (cases "length s < li")
  case True
  then show ?thesis
    using ts_matchAll_drop [of li s] by (simp add: ts_exec_def)
next
  case False
  show ?thesis
  proof (cases "ts_search li (drop li s)")
    case None
    with False ts_search_None [OF None] show ?thesis
      using ts_matchAll_drop [of li s] by (simp add: ts_exec_def)
  next
    case (Some r)
    obtain m e where r: "r = (m, e)" by (cases r)
    with Some have eq: "ts_search li (drop li s) = Some (m, e)" by simp
    from ts_search_Some [OF eq] have
      e: "li < e" and t: "ts_matchAll 0 (drop li s) = m # ts_matchAll 0 (drop (e - li) (drop li s))"
      by simp_all
    from e have "drop (e - li) (drop li s) = drop e s" by simp
    with t have "ts_matchAll li s = m # ts_matchAll e s"
      using ts_matchAll_drop [of li s] ts_matchAll_drop [of e s] by simp
    with False eq show ?thesis by (simp add: ts_exec_def)
  qed
qed

lemma ts_search_None_iff:
  "ts_search i s = None \<longleftrightarrow> (\<forall>j. match_timestamp (drop j s) = None)"
proof (induction s arbitrary: i)
  case Nil
  show ?case by (simp add: match_timestamp_def)
next
  case (Cons c cs)
  show ?case
  proof (cases "match_timestamp (c # cs)")
    case None
    have "(\<forall>j. match_timestamp (drop j (c # cs)) = None) \<longleftrightarrow>
        (\<forall>j. match_timestamp (drop j cs) = None)"
    proof
      assume a: "\<forall>j. match_timestamp (drop j (c # cs)) = None"
      show "\<forall>j. match_timestamp (drop j cs) = None"
      proof
        fix j
        from a [THEN spec, of "Suc j"] show "match_timestamp (drop j cs) = None" by simp
      qed
    next
      assume a: "\<forall>j. match_timestamp (drop j cs) = None"
      show "\<forall>j. match_timestamp (drop j (c # cs)) = None"
      proof
        fix j
        show "match_timestamp (drop j (c # cs)) = None"
          using None a [THEN spec, of "j - 1"] by (cases j) simp_all
      qed
    qed
    with None Cons [of "Suc i"] show ?thesis by simp
  next
    case (Some r)
    have "\<not> (\<forall>j. match_timestamp (drop j (c # cs)) = None)"
    proof
      assume "\<forall>j. match_timestamp (drop j (c # cs)) = None"
      from this [THEN spec, of 0] Some show False by simp
    qed
    with Some show ?thesis by (auto split: prod.splits)
  qed
qed

lemma isLrcFormat_fresh: "fst (isLrcFormat 0 s) \<longleftrightarrow> (\<exists>i. timestamp_at s i)"
proof (cases "s = []")
  case True
  then show ?thesis by (simp add: isLrcFormat_def timestamp_at_iff match_timestamp_def)
next
  case False
  have "fst (isLrcFormat 0 s) \<longleftrightarrow> ts_search 0 s \<noteq> None"
    using False by (auto simp: isLrcFormat_def ts_exec_def split: option.splits prod.splits)
  also have "\<dots> \<longleftrightarrow> \<not> (\<forall>j. match_timestamp (drop j s) = None)"
    by (simp only: ts_search_None_iff)
  also have "\<dots> \<longleftrightarrow> (\<exists>i. timestamp_at s i)"
    by (simp add: timestamp_at_iff del: not_None_eq)
  finally show ?thesis .
qed

section \<open>Metadata tags in the text of a line\<close>

text \<open>
  C2 asks that no metadata tag reach the text of an entry. The code strips the tags to
  decide whether the line is blank, and then takes the text from the line as it was:
  \<^verbatim>\<open>[00:01.00][ti:Song Name]Hello\<close> gives the text \<^verbatim>\<open>[ti:Song Name]Hello\<close>.
\<close>

theorem parseLrcLyrics_keeps_metadata_tag:
  "fst (parseLrcLyrics 0 (js ''[00:01.00][ti:Song Name]Hello'')) =
     [\<lparr>time = 1, text = js ''[ti:Song Name]Hello''\<rparr>]"
  by code_simp

section \<open>Writing LRC text and reading it back\<close>

lemma rnd_29: "rnd (29 / 100) = 5224175567749775 / 18014398509481984"
  by code_simp

lemma rnd_28: "rnd (28 / 100) = 1261007895663739 / 4503599627370496"
  by code_simp

text \<open>
  C9 asks that parsing the text \<^verbatim>\<open>toLrcFormat\<close> writes give the lines back. The time
  0.29, which \<^verbatim>\<open>parseLrcLyrics\<close> reads from \<^verbatim>\<open>[00:00.29]a\<close>, is written as \<^verbatim>\<open>00:00.28\<close>:
  the product \<^verbatim>\<open>(seconds % 1) * 100\<close> is rounded to a number just below 29 and
  \<^verbatim>\<open>Math.floor\<close> cuts it to 28. Reading that text gives the time 0.28.
\<close>

theorem toLrcFormat_truncates_hundredths:
  "fst (parseLrcLyrics 0 (js ''[00:00.29]a'')) = [\<lparr>time = rnd (29 / 100), text = js ''a''\<rparr>] \<and>
   toLrcFormat [\<lparr>time = rnd (29 / 100), text = js ''a''\<rparr>] = js ''[00:00.28]a'' \<and>
   fst (parseLrcLyrics 0 (js ''[00:00.28]a'')) = [\<lparr>time = rnd (28 / 100), text = js ''a''\<rparr>] \<and>
   rnd (28 / 100) \<noteq> rnd (29 / 100)"
  unfolding rnd_29 rnd_28 by code_simp

section \<open>The active line\<close>

lemma findActiveLine_loop_none:
  "\<forall>i<n. t < time (ls ! i) \<Longrightarrow> findActiveLine_loop ls t n = - 1"
  by (induction n) (simp_all add: not_le [symmetric])

lemma findActiveLine_loop_Max:
  "\<exists>i<n. time (ls ! i) \<le> t \<Longrightarrow>
     findActiveLine_loop ls t n = int (Max {i. i < n \<and> time (ls ! i) \<le> t})"
proof (induction n)
  case 0
  then show ?case by simp
next
  case (Suc n)
  show ?case
  proof (cases "time (ls ! n) \<le> t")
    case True
    have "Max {i. i < Suc n \<and> time (ls ! i) \<le> t} = n"
    proof (rule Max_eqI)
      show "finite {i. i < Suc n \<and> time (ls ! i) \<le> t}" by simp
      show "y \<le> n" if "y \<in> {i. i < Suc n \<and> time (ls ! i) \<le> t}" for y
        using that by simp
      show "n \<in> {i. i < Suc n \<and> time (ls ! i) \<le> t}" using True by simp
    qed
    with True show ?thesis by simp
  next
    case False
    then have eq: "{i. i < Suc n \<and> time (ls ! i) \<le> t} = {i. i < n \<and> time (ls ! i) \<le> t}"
      by (auto simp: less_Suc_eq)
    from False Suc.prems have "\<exists>i<n. time (ls ! i) \<le> t"
      by (auto simp: less_Suc_eq)
    with Suc.IH False eq show ?thesis by simp
  qed
qed

text \<open>
  C5. \<^verbatim>\<open>findActiveLine\<close> returns the largest index whose line has \<^verbatim>\<open>time <= currentTime\<close>
  (with equal times, the last such line), and -1 when there is none, the empty list
  included. For a non-empty list sorted by time it returns -1 when \<^verbatim>\<open>currentTime\<close> is
  before the first line and the last index when it is not before the last line.
\<close>

theorem findActiveLine_last_started:
  assumes "sorted (map time lyrics)"
  shows "((\<exists>i<length lyrics. time (lyrics ! i) \<le> t) \<longrightarrow>
            findActiveLine lyrics t = int (Max {i. i < length lyrics \<and> time (lyrics ! i) \<le> t})) \<and>
         ((\<forall>i<length lyrics. t < time (lyrics ! i)) \<longrightarrow> findActiveLine lyrics t = - 1) \<and>
         (lyrics \<noteq> [] \<and> t < time (lyrics ! 0) \<longrightarrow> findActiveLine lyrics t = - 1) \<and>
         (lyrics \<noteq> [] \<and> time (last lyrics) \<le> t \<longrightarrow>
            findActiveLine lyrics t = int (length lyrics) - 1)"
proof (intro conjI impI)
  assume "\<exists>i<length lyrics. time (lyrics ! i) \<le> t"
  then show "findActiveLine lyrics t = int (Max {i. i < length lyrics \<and> time (lyrics ! i) \<le> t})"
    by (auto simp: findActiveLine_def findActiveLine_loop_Max)
next
  assume "\<forall>i<length lyrics. t < time (lyrics ! i)"
  then show "findActiveLine lyrics t = - 1"
    by (simp add: findActiveLine_def findActiveLine_loop_none)
next
  assume a: "lyrics \<noteq> [] \<and> t < time (lyrics ! 0)"
  have "t < time (lyrics ! i)" if "i < length lyrics" for i
  proof -
    from assms that have "map time lyrics ! 0 \<le> map time lyrics ! i"
      by (intro sorted_nth_mono) simp_all
    with that a show ?thesis by simp
  qed
  then show "findActiveLine lyrics t = - 1"
    by (simp add: findActiveLine_def findActiveLine_loop_none)
next
  assume a: "lyrics \<noteq> [] \<and> time (last lyrics) \<le> t"
  then obtain n where n: "length lyrics = Suc n" by (cases lyrics) auto
  with a have "last lyrics = lyrics ! n" by (simp add: last_conv_nth)
  with a have "time (lyrics ! n) \<le> t" by simp
  with n show "findActiveLine lyrics t = int (length lyrics) - 1"
    by (simp add: findActiveLine_def)
qed

theorem findActiveLine_last_started_witness:
  "sorted (map time [\<lparr>time = 1, text = js ''a''\<rparr>, \<lparr>time = 3, text = js ''b''\<rparr>,
                     \<lparr>time = 3, text = js ''c''\<rparr>, \<lparr>time = 7, text = js ''d''\<rparr>]) \<and>
   findActiveLine [\<lparr>time = 1, text = js ''a''\<rparr>, \<lparr>time = 3, text = js ''b''\<rparr>,
                   \<lparr>time = 3, text = js ''c''\<rparr>, \<lparr>time = 7, text = js ''d''\<rparr>] (1 / 2) = - 1 \<and>
   findActiveLine [\<lparr>time = 1, text = js ''a''\<rparr>, \<lparr>time = 3, text = js ''b''\<rparr>,
                   \<lparr>time = 3, text = js ''c''\<rparr>, \<lparr>time = 7, text = js ''d''\<rparr>] 3 = 2 \<and>
   findActiveLine [\<lparr>time = 1, text = js ''a''\<rparr>, \<lparr>time = 3, text = js ''b''\<rparr>,
                   \<lparr>time = 3, text = js ''c''\<rparr>, \<lparr>time = 7, text = js ''d''\<rparr>] 9 = 3"
proof -
  define L where "L = [\<lparr>time = 1, text = js ''a''\<rparr>, \<lparr>time = 3, text = js ''b''\<rparr>,
                      \<lparr>time = 3, text = js ''c''\<rparr>, \<lparr>time = (7::rat), text = js ''d''\<rparr>]"
  have s: "sorted (map time L)" by (simp add: L_def)
  note T = findActiveLine_last_started [OF s]
  have 1: "findActiveLine L (1 / 2) = - 1"
    using T [of "1 / 2", THEN conjunct2, THEN conjunct2, THEN conjunct1] by (simp add: L_def)
  have 2: "findActiveLine L 9 = 3"
    using T [of 9, THEN conjunct2, THEN conjunct2, THEN conjunct2] by (simp add: L_def)
  have S: "{i. i < length L \<and> time (L ! i) \<le> 3} = {0, 1, 2}"
    unfolding L_def by (auto simp: nth_Cons' less_Suc_eq numeral_eq_Suc)
  have e: "\<exists>i<length L. time (L ! i) \<le> 3"
    by (rule exI [of _ 0]) (simp add: L_def)
  have 3: "findActiveLine L 3 = 2"
    using T [of 3, THEN conjunct1, THEN mp, OF e] by (simp add: S)
  from s 1 3 2 show ?thesis unfolding L_def by (intro conjI)
qed

section \<open>The window\<close>

lemma take_drop_upto:
  assumes "0 \<le> a" "b \<le> int (length xs)"
  shows "take (nat (b - a)) (drop (nat a) xs) = map (\<lambda>j. xs ! nat j) [a..b - 1]"
proof (rule nth_equalityI)
  show len: "length (take (nat (b - a)) (drop (nat a) xs)) = length (map (\<lambda>j. xs ! nat j) [a..b - 1])"
  proof -
    have "nat (b - a) \<le> length xs - nat a" using assms by linarith
    then show ?thesis by simp
  qed
  fix i assume "i < length (take (nat (b - a)) (drop (nat a) xs))"
  then have i: "int i < b - a" by simp linarith
  with assms have "take (nat (b - a)) (drop (nat a) xs) ! i = xs ! (nat a + i)" by simp
  moreover from i have "[a..b - 1] ! i = a + int i" by (simp add: nth_upto)
  moreover from assms have "nat (a + int i) = nat a + i" by (simp add: nat_add_distrib)
  ultimately show "take (nat (b - a)) (drop (nat a) xs) ! i = map (\<lambda>j. xs ! nat j) [a..b - 1] ! i"
    using i by simp
qed

lemma getLyricsWindow_range:
  assumes "0 \<le> i" "0 \<le> i + w + 1"
  shows "getLyricsWindow lyrics i w =
           map (\<lambda>j. lyrics ! nat j) [max 0 (i - w)..min (int (length lyrics)) (i + w + 1) - 1]"
proof (cases "lyrics = []")
  case True
  then show ?thesis by (simp add: getLyricsWindow_def)
next
  case False
  define a where "a = max 0 (i - w)"
  define b where "b = min (int (length lyrics)) (i + w + 1)"
  have b: "0 \<le> b" "b \<le> int (length lyrics)" using assms by (simp_all add: b_def)
  have a: "0 \<le> a" by (simp add: a_def)
  have "slice lyrics a b = map (\<lambda>j. lyrics ! nat j) [a..b - 1]"
  proof (cases "a \<le> int (length lyrics)")
    case True
    with a b show ?thesis
      by (simp add: slice_def Let_def min_def take_drop_upto)
  next
    case False
    with a b show ?thesis by (simp add: slice_def Let_def min_def)
  qed
  with False assms show ?thesis by (simp add: getLyricsWindow_def Let_def a_def b_def)
qed

text \<open>
  C8. For an index \<open>i \<ge> 0\<close> and a window radius \<open>w \<ge> 0\<close>, \<^verbatim>\<open>getLyricsWindow\<close> returns the
  lines at the indices from \<open>max 0 (i - w)\<close> up to, not including,
  \<open>min length (i + w + 1)\<close>, in their order; and these are the indices of the list at a
  distance of at most \<open>w\<close> from \<open>i\<close>.
\<close>

theorem getLyricsWindow_slice:
  assumes "0 \<le> i" "0 \<le> w"
  shows "getLyricsWindow lyrics i w =
           map (\<lambda>j. lyrics ! nat j) [max 0 (i - w)..min (int (length lyrics)) (i + w + 1) - 1] \<and>
         (\<forall>j. j \<in> set [max 0 (i - w)..min (int (length lyrics)) (i + w + 1) - 1] \<longleftrightarrow>
              0 \<le> j \<and> j < int (length lyrics) \<and> \<bar>j - i\<bar> \<le> w)"
proof
  from assms show "getLyricsWindow lyrics i w =
      map (\<lambda>j. lyrics ! nat j) [max 0 (i - w)..min (int (length lyrics)) (i + w + 1) - 1]"
    by (intro getLyricsWindow_range) simp_all
  show "\<forall>j. j \<in> set [max 0 (i - w)..min (int (length lyrics)) (i + w + 1) - 1] \<longleftrightarrow>
              0 \<le> j \<and> j < int (length lyrics) \<and> \<bar>j - i\<bar> \<le> w"
    by auto
qed

theorem getLyricsWindow_slice_witness:
  "getLyricsWindow [\<lparr>time = 1, text = js ''a''\<rparr>, \<lparr>time = 2, text = js ''b''\<rparr>,
                    \<lparr>time = 3, text = js ''c''\<rparr>, \<lparr>time = 4, text = js ''d''\<rparr>] 3 1 =
     [\<lparr>time = 3, text = js ''c''\<rparr>, \<lparr>time = 4, text = js ''d''\<rparr>] \<and>
   getLyricsWindow [\<lparr>time = 1, text = js ''a''\<rparr>, \<lparr>time = 2, text = js ''b''\<rparr>,
                    \<lparr>time = 3, text = js ''c''\<rparr>, \<lparr>time = 4, text = js ''d''\<rparr>] 1 0 =
     [\<lparr>time = 2, text = js ''b''\<rparr>] \<and>
   getLyricsWindow [\<lparr>time = 1, text = js ''a''\<rparr>, \<lparr>time = 2, text = js ''b''\<rparr>,
                    \<lparr>time = 3, text = js ''c''\<rparr>, \<lparr>time = 4, text = js ''d''\<rparr>] 0 9 =
     [\<lparr>time = 1, text = js ''a''\<rparr>, \<lparr>time = 2, text = js ''b''\<rparr>,
      \<lparr>time = 3, text = js ''c''\<rparr>, \<lparr>time = 4, text = js ''d''\<rparr>]"
  using getLyricsWindow_slice [of 3 1 "[\<lparr>time = 1, text = js ''a''\<rparr>, \<lparr>time = 2, text = js ''b''\<rparr>,
                    \<lparr>time = 3, text = js ''c''\<rparr>, \<lparr>time = 4, text = js ''d''\<rparr>]", THEN conjunct1]
    getLyricsWindow_slice [of 1 0 "[\<lparr>time = 1, text = js ''a''\<rparr>, \<lparr>time = 2, text = js ''b''\<rparr>,
                    \<lparr>time = 3, text = js ''c''\<rparr>, \<lparr>time = 4, text = js ''d''\<rparr>]", THEN conjunct1]
    getLyricsWindow_slice [of 0 9 "[\<lparr>time = 1, text = js ''a''\<rparr>, \<lparr>time = 2, text = js ''b''\<rparr>,
                    \<lparr>time = 3, text = js ''c''\<rparr>, \<lparr>time = 4, text = js ''d''\<rparr>]", THEN conjunct1]
  by (simp add: upto.simps)

section \<open>Integers that a number holds exactly\<close>

lemma pow2_ge: "54 \<le> e \<Longrightarrow> 2 ^ 54 \<le> pow2 e"
proof -
  assume e: "54 \<le> e"
  then have "(54::nat) \<le> nat e" by simp
  then have "(2::rat) ^ 54 \<le> 2 ^ nat e" by (intro power_increasing) simp_all
  with e show ?thesis by (simp add: pow2_def)
qed

lemma rnd_int_exact:
  assumes "\<bar>n\<bar> \<le> 2 ^ 53"
  shows "rnd (of_int n) = of_int n"
proof (cases "n = 0")
  case True
  then show ?thesis by (simp add: rnd_0)
next
  case False
  define x :: rat where "x = of_int n"
  define e where "e = ilog2 \<bar>x\<bar>"
  from False have x0: "x \<noteq> 0" "0 < \<bar>x\<bar>" by (simp_all add: x_def)
  have xle: "\<bar>x\<bar> \<le> 2 ^ 53"
  proof -
    have "(of_int \<bar>n\<bar> :: rat) \<le> of_int (2 ^ 53)" using assms by (simp only: of_int_le_iff)
    then show ?thesis by (simp add: x_def)
  qed
  have lo: "pow2 e \<le> \<bar>x\<bar>" unfolding e_def by (rule ilog2_lower [OF x0(2)])
  have e53: "e \<le> 53"
  proof (rule ccontr)
    assume "\<not> e \<le> 53"
    then have "54 \<le> e" by simp
    from pow2_ge [OF this] lo xle show False by simp
  qed
  have r: "rnd x = of_int (round_half_even (x / pow2 (e - 52))) * pow2 (e - 52)"
    using x0 by (simp add: rnd_def Let_def e_def)
  show ?thesis
  proof (cases "e \<le> 52")
    case True
    define k where "k = nat (52 - e)"
    have u: "pow2 (e - 52) = 1 / 2 ^ k"
    proof (cases "e = 52")
      case True
      then show ?thesis by (simp add: pow2_def k_def)
    next
      case False
      with \<open>e \<le> 52\<close> have "\<not> 0 \<le> e - 52" "- (e - 52) = 52 - e" by simp_all
      then show ?thesis by (simp add: pow2_def k_def)
    qed
    have "x / pow2 (e - 52) = of_int (n * 2 ^ k)" by (simp add: u x_def)
    then have "round_half_even (x / pow2 (e - 52)) = n * 2 ^ k"
      by (simp only: round_half_even_of_int)
    with r u have "rnd x = of_int (n * 2 ^ k) * (1 / 2 ^ k)" by simp
    then show ?thesis by (simp add: x_def)
  next
    case False
    with e53 have e: "e = 53" by simp
    with lo have "2 ^ 53 \<le> \<bar>x\<bar>" by (simp add: pow2_def)
    with xle have "\<bar>x\<bar> = 2 ^ 53" by simp
    then have "x = of_int (2 ^ 53) \<or> x = of_int (- (2 ^ 53))" by (auto simp: abs_if split: if_splits)
    then have "x / 2 = of_int (2 ^ 52) \<or> x / 2 = of_int (- (2 ^ 52))" by auto
    then have "of_int (round_half_even (x / 2)) = x / 2"
      by (auto simp only: round_half_even_of_int)
    with r e show ?thesis by (simp add: pow2_def x_def)
  qed
qed

section \<open>Applying an offset\<close>

lemma read_line_append: "read_line h r = Some l \<Longrightarrow> read_line (h @ ext) r = Some l"
  by (auto simp: read_line_def nth_append split: if_splits)

lemma read_lines_append: "read_lines h rs = Some ls \<Longrightarrow> read_lines (h @ ext) rs = Some ls"
proof (induction rs arbitrary: ls)
  case Nil
  then show ?case by simp
next
  case (Cons r rs)
  then show ?case
    by (auto simp: read_line_append split: option.splits)
qed

lemma read_array_append: "read_array h a = Some ls \<Longrightarrow> read_array (h @ ext) a = Some ls"
  by (auto simp: read_array_def nth_append read_lines_append split: if_splits obj.splits)

lemma read_lines_new:
  "read_lines (pre @ map Line ls) [length pre..<length pre + length ls] = Some ls"
proof (induction ls arbitrary: pre)
  case Nil
  show ?case by simp
next
  case (Cons l ls)
  have "[length pre..<length pre + length (l # ls)] =
      length pre # [length (pre @ [Line l])..<length (pre @ [Line l]) + length ls]"
    by (simp add: upt_conv_Cons del: upt_Suc)
  moreover have "read_line (pre @ map Line (l # ls)) (length pre) = Some l"
    by (simp add: read_line_def)
  moreover have "read_lines ((pre @ [Line l]) @ map Line ls)
      [length (pre @ [Line l])..<length (pre @ [Line l]) + length ls] = Some ls"
    by (rule Cons.IH)
  ultimately show ?case by simp
qed

lemma applyOffset_nth:
  "i < length lyrics \<Longrightarrow>
     applyOffset lyrics offsetMs ! i = shiftLine (fdiv offsetMs 1000) (lyrics ! i)"
  by (auto simp: applyOffset_def Let_def)

lemma applyOffset_store_new:
  assumes "read_array h a = Some lyrics"
  shows "\<exists>h' a'. applyOffset_store h a offsetMs = Some (h', a') \<and>
           read_array h' a' = Some (applyOffset lyrics offsetMs) \<and>
           length h \<le> a' \<and> take (length h) h' = h \<and> read_array h' a = Some lyrics"
proof (cases "lyrics = []")
  case True
  with assms have "applyOffset_store h a offsetMs = Some (h @ [Arr []], length h)"
    by (simp add: applyOffset_store_def)
  moreover have "read_array (h @ [Arr []]) (length h) = Some (applyOffset lyrics offsetMs)"
    using True by (simp add: read_array_def applyOffset_def)
  moreover have "read_array (h @ [Arr []]) a = Some lyrics"
    using assms by (rule read_array_append)
  ultimately show ?thesis by simp
next
  case False
  define new where "new = map (shiftLine (fdiv offsetMs 1000)) lyrics"
  define h' where "h' = h @ Arr [Suc (length h)..<Suc (length h) + length lyrics] # map Line new"
  from False assms have r: "applyOffset_store h a offsetMs = Some (h', length h)"
    by (simp add: applyOffset_store_def Let_def h'_def new_def comp_def)
  have "read_lines ((h @ [Arr [Suc (length h)..<Suc (length h) + length lyrics]]) @ map Line new)
      [length (h @ [Arr [Suc (length h)..<Suc (length h) + length lyrics]])..<
       length (h @ [Arr [Suc (length h)..<Suc (length h) + length lyrics]]) + length new] = Some new"
    by (rule read_lines_new)
  then have "read_lines h' [Suc (length h)..<Suc (length h) + length lyrics] = Some new"
    by (simp add: h'_def new_def)
  then have n: "read_array h' (length h) = Some (applyOffset lyrics offsetMs)"
    using False by (simp add: read_array_def h'_def applyOffset_def Let_def new_def)
  have o: "read_array h' a = Some lyrics"
    unfolding h'_def using assms by (rule read_array_append)
  have "take (length h) h' = h" by (simp add: h'_def)
  with r n o show ?thesis by simp
qed

lemma rnd_whole_seconds:
  "\<bar>k\<bar> \<le> 2 ^ 53 \<Longrightarrow> rnd (of_int (1000 * k) / 1000) = of_int k"
  by (simp add: rnd_int_exact)

lemma shiftLine_whole_seconds:
  assumes "\<bar>k\<bar> \<le> 2 ^ 53" "\<bar>t + k\<bar> \<le> 2 ^ 53" "time l = of_int t"
  shows "time (shiftLine (fdiv (of_int (1000 * k)) 1000) l) = max 0 (of_int (t + k))"
proof -
  have "fdiv (of_int (1000 * k)) 1000 = of_int k"
    unfolding fdiv_def using assms(1) by (rule rnd_whole_seconds)
  moreover have "rnd (of_int t + of_int k) = of_int (t + k)"
    using rnd_int_exact [OF assms(2)] by simp
  ultimately show ?thesis using assms(3) by (simp add: shiftLine_def fadd_def)
qed

lemma shift_error:
  "\<bar>max 0 (rnd (t + rnd e)) - max 0 (t + e)\<bar> \<le> (\<bar>t\<bar> + 3 * \<bar>e\<bar>) / 2 ^ 53"
proof -
  have 1: "\<bar>rnd e - e\<bar> \<le> \<bar>e\<bar> / 2 ^ 53" by (rule rnd_error)
  have 2: "\<bar>rnd (t + rnd e) - (t + rnd e)\<bar> \<le> \<bar>t + rnd e\<bar> / 2 ^ 53" by (rule rnd_error)
  have "\<bar>e\<bar> / 2 ^ 53 \<le> \<bar>e\<bar>" by simp
  with 1 have "\<bar>rnd e\<bar> \<le> 2 * \<bar>e\<bar>" by linarith
  then have "\<bar>t + rnd e\<bar> \<le> \<bar>t\<bar> + 2 * \<bar>e\<bar>" by linarith
  then have 3: "\<bar>t + rnd e\<bar> / 2 ^ 53 \<le> (\<bar>t\<bar> + 2 * \<bar>e\<bar>) / 2 ^ 53"
    by (intro divide_right_mono) simp_all
  have "(\<bar>t\<bar> + 2 * \<bar>e\<bar>) / 2 ^ 53 + \<bar>e\<bar> / 2 ^ 53 = (\<bar>t\<bar> + 3 * \<bar>e\<bar>) / 2 ^ 53"
    by (simp add: add_divide_distrib [symmetric] del: add_divide_distrib)
  with 1 2 3 have "\<bar>rnd (t + rnd e) - (t + e)\<bar> \<le> (\<bar>t\<bar> + 3 * \<bar>e\<bar>) / 2 ^ 53" by linarith
  moreover have "\<bar>max 0 (rnd (t + rnd e)) - max 0 (t + e)\<bar> \<le> \<bar>rnd (t + rnd e) - (t + e)\<bar>"
    by linarith
  ultimately show ?thesis by (rule order_trans [rotated])
qed

text \<open>
  C6. \<^verbatim>\<open>applyOffset\<close> returns as many lines as it is given. Line \<open>i\<close> of the result has the
  text of line \<open>i\<close> of the argument and the time \<^verbatim>\<open>Math.max(0, time + offsetMs / 1000)\<close>:
  the quotient of the offset by 1000 and its sum with the time of the line, each rounded
  to a double, and 0 where that is negative. This time is never negative; it differs from
  the exact value of \<open>max 0 (time + offsetMs / 1000)\<close> by no more than
  \<open>(\<bar>time\<bar> + 3 \<bar>offsetMs / 1000\<bar>) / 2\<^sup>5\<^sup>3\<close>, and it is exactly \<open>max 0 (t + k)\<close> for a time of \<open>t\<close>
  whole seconds and an offset of \<open>1000 k\<close> milliseconds (with \<open>k\<close> and \<open>t + k\<close> of at most
  \<open>2\<^sup>5\<^sup>3\<close> in absolute value). On the store: the result is an array at a new address, the
  store of before is a prefix of the store of after (no object that existed is changed),
  and the argument still reads as the same lines.
\<close>

theorem applyOffset_shifts_and_clamps:
  "length (applyOffset lyrics offsetMs) = length lyrics \<and>
   (\<forall>i<length lyrics.
      time (applyOffset lyrics offsetMs ! i) =
        max 0 (rnd (time (lyrics ! i) + rnd (offsetMs / 1000))) \<and>
      \<bar>time (applyOffset lyrics offsetMs ! i) - max 0 (time (lyrics ! i) + offsetMs / 1000)\<bar>
        \<le> (\<bar>time (lyrics ! i)\<bar> + 3 * \<bar>offsetMs / 1000\<bar>) / 2 ^ 53 \<and>
      0 \<le> time (applyOffset lyrics offsetMs ! i) \<and>
      text (applyOffset lyrics offsetMs ! i) = text (lyrics ! i)) \<and>
   (\<forall>i<length lyrics. \<forall>t k.
      offsetMs = of_int (1000 * k) \<and> time (lyrics ! i) = of_int t \<and>
      \<bar>k\<bar> \<le> 2 ^ 53 \<and> \<bar>t + k\<bar> \<le> 2 ^ 53 \<longrightarrow>
      time (applyOffset lyrics offsetMs ! i) = max 0 (of_int (t + k))) \<and>
   (read_array h a = Some lyrics \<longrightarrow>
      (\<exists>h' a'. applyOffset_store h a offsetMs = Some (h', a') \<and>
         read_array h' a' = Some (applyOffset lyrics offsetMs) \<and>
         length h \<le> a' \<and> take (length h) h' = h \<and> read_array h' a = Some lyrics))"
proof (intro conjI allI impI)
  show "length (applyOffset lyrics offsetMs) = length lyrics"
    by (simp add: applyOffset_def Let_def)
  show t: "time (applyOffset lyrics offsetMs ! i) =
      max 0 (rnd (time (lyrics ! i) + rnd (offsetMs / 1000)))" if "i < length lyrics" for i
    using that by (simp add: applyOffset_nth shiftLine_def fadd_def fdiv_def)
  show "\<bar>time (applyOffset lyrics offsetMs ! i) - max 0 (time (lyrics ! i) + offsetMs / 1000)\<bar>
        \<le> (\<bar>time (lyrics ! i)\<bar> + 3 * \<bar>offsetMs / 1000\<bar>) / 2 ^ 53" if "i < length lyrics" for i
    unfolding t [OF that] by (rule shift_error)
  show "0 \<le> time (applyOffset lyrics offsetMs ! i)" if "i < length lyrics" for i
    using that by (simp add: applyOffset_nth shiftLine_def)
  show "text (applyOffset lyrics offsetMs ! i) = text (lyrics ! i)" if "i < length lyrics" for i
    using that by (simp add: applyOffset_nth shiftLine_def)
  show "time (applyOffset lyrics offsetMs ! i) = max 0 (of_int (t + k))"
    if i: "i < length lyrics" and
      h: "offsetMs = of_int (1000 * k) \<and> time (lyrics ! i) = of_int t \<and>
       \<bar>k\<bar> \<le> 2 ^ 53 \<and> \<bar>t + k\<bar> \<le> 2 ^ 53" for i t k
  proof -
    from h have o: "offsetMs = of_int (1000 * k)" and tt: "time (lyrics ! i) = of_int t"
      and k: "\<bar>k\<bar> \<le> 2 ^ 53" and tk: "\<bar>t + k\<bar> \<le> 2 ^ 53" by blast+
    have "time (applyOffset lyrics offsetMs ! i) =
        time (shiftLine (fdiv (of_int (1000 * k)) 1000) (lyrics ! i))"
      unfolding o using i by (simp only: applyOffset_nth)
    also have "\<dots> = max 0 (of_int (t + k))"
      using k tk tt by (rule shiftLine_whole_seconds)
    finally show ?thesis .
  qed
  show "\<exists>h' a'. applyOffset_store h a offsetMs = Some (h', a') \<and>
         read_array h' a' = Some (applyOffset lyrics offsetMs) \<and>
         length h \<le> a' \<and> take (length h) h' = h \<and> read_array h' a = Some lyrics"
    if "read_array h a = Some lyrics"
    using that by (rule applyOffset_store_new)
qed

theorem applyOffset_shifts_and_clamps_witness:
  "time (applyOffset [\<lparr>time = 2, text = js ''x''\<rparr>] (- 5000) ! 0) = 0 \<and>
   time (applyOffset [\<lparr>time = 2, text = js ''x''\<rparr>] 3000 ! 0) = 5 \<and>
   time (applyOffset [\<lparr>time = 2, text = js ''x''\<rparr>] 1500 ! 0) = 7 / 2 \<and>
   time (applyOffset [\<lparr>time = 2, text = js ''x''\<rparr>] (- 500) ! 0) = 3 / 2 \<and>
   text (applyOffset [\<lparr>time = 2, text = js ''x''\<rparr>] (- 5000) ! 0) = js ''x'' \<and>
   read_array [Line \<lparr>time = 2, text = js ''x''\<rparr>, Arr [0]] 1 = Some [\<lparr>time = 2, text = js ''x''\<rparr>] \<and>
   (\<exists>h' a'. applyOffset_store [Line \<lparr>time = 2, text = js ''x''\<rparr>, Arr [0]] 1 (- 5000) = Some (h', a') \<and>
      read_array h' a' = Some (applyOffset [\<lparr>time = 2, text = js ''x''\<rparr>] (- 5000)) \<and>
      2 \<le> a' \<and> read_array h' 1 = Some [\<lparr>time = 2, text = js ''x''\<rparr>])"
proof -
  define L where "L = [\<lparr>time = (2::rat), text = js ''x''\<rparr>]"
  have r: "read_array [Line \<lparr>time = 2, text = js ''x''\<rparr>, Arr [0]] 1 = Some L"
    unfolding L_def by code_simp
  have f1: "max 0 (rnd (2 + rnd (1500 / 1000))) = 7 / 2" by code_simp
  have f2: "max 0 (rnd (2 + rnd (- 500 / 1000))) = 3 / 2" by code_simp
  have i0: "0 < length L" by (simp add: L_def)
  note T = applyOffset_shifts_and_clamps [of L _ "[Line \<lparr>time = 2, text = js ''x''\<rparr>, Arr [0]]" 1]
  note V = T [THEN conjunct2, THEN conjunct1, THEN spec, THEN mp, OF i0]
  note W = T [THEN conjunct2, THEN conjunct2, THEN conjunct1, THEN spec, THEN mp, OF i0]
  have 1: "time (applyOffset L (- 5000) ! 0) = 0"
    using W [of "- 5000", THEN spec [where x = 2], THEN spec [where x = "- 5"]] by (simp add: L_def)
  have 2: "time (applyOffset L 3000 ! 0) = 5"
    using W [of 3000, THEN spec [where x = 2], THEN spec [where x = 3]] by (simp add: L_def)
  have 3: "time (applyOffset L 1500 ! 0) = 7 / 2"
    using V [of 1500, THEN conjunct1] f1 by (simp add: L_def)
  have 4: "time (applyOffset L (- 500) ! 0) = 3 / 2"
    using V [of "- 500", THEN conjunct1] f2 by (simp add: L_def)
  have 5: "text (applyOffset L (- 5000) ! 0) = js ''x''"
    using V [of "- 5000", THEN conjunct2, THEN conjunct2, THEN conjunct2] by (simp add: L_def)
  have 6: "\<exists>h' a'. applyOffset_store [Line \<lparr>time = 2, text = js ''x''\<rparr>, Arr [0]] 1 (- 5000) = Some (h', a') \<and>
      read_array h' a' = Some (applyOffset L (- 5000)) \<and>
      2 \<le> a' \<and> read_array h' 1 = Some L"
    using T [of "- 5000", THEN conjunct2, THEN conjunct2, THEN conjunct2] r by auto
  from 1 2 3 4 5 r 6 show ?thesis unfolding L_def by (intro conjI)
qed

section \<open>The offset tag\<close>

lemma takeWhile_digits: "list_all is_digit ds \<Longrightarrow> takeWhile is_digit ds = ds"
  by (simp add: takeWhile_eq_all_conv list_all_iff)

lemma parseInt_plain:
  "ds \<noteq> [] \<Longrightarrow> list_all is_digit ds \<Longrightarrow> parseInt ds = rnd (of_int (digits_val ds))"
  by (cases ds) (auto simp: parseInt_def takeWhile_digits)

lemma parseInt_minus:
  "list_all is_digit ds \<Longrightarrow> parseInt (MINUS # ds) = rnd (of_int (- digits_val ds))"
  by (simp add: parseInt_def takeWhile_digits)

lemma match_offset_plain:
  assumes "ds \<noteq> []" "list_all is_digit ds"
  shows "match_offset (js ''[offset:'' @ ds @ RBRACKET # post) = Some ds"
proof -
  from assms obtain d ds' where ds: "ds = d # ds'" "is_digit d" by (cases ds) auto
  then have d: "d \<noteq> MINUS" by auto
  have tw: "takeWhile is_digit (ds @ RBRACKET # post) = ds"
    using assms(2) by (simp add: takeWhile_all)
  have len: "length (js ''[offset:'') = 8" by (simp add: js_def)
  show ?thesis
    unfolding match_offset_def Let_def
    using tw assms(1) d by (simp add: len ds(1))
qed

lemma match_offset_minus:
  assumes "ds \<noteq> []" "list_all is_digit ds"
  shows "match_offset (js ''[offset:'' @ MINUS # ds @ RBRACKET # post) = Some (MINUS # ds)"
proof -
  have tw: "takeWhile is_digit (ds @ RBRACKET # post) = ds"
    using assms(2) by (simp add: takeWhile_all)
  have len: "length (js ''[offset:'') = 8" by (simp add: js_def)
  show ?thesis
    unfolding match_offset_def Let_def
    using tw assms(1) by (simp add: len)
qed

lemma js_offset_minus: "js ''[offset:-'' = js ''[offset:'' @ [MINUS]"
  by (simp add: js_def)

lemma offset_tag_match:
  assumes "is_plain_offset_tag t n"
  shows "\<exists>g. match_offset (t @ post) = Some g \<and> g \<noteq> [] \<and> parseInt g = rnd (of_int n)"
proof -
  from assms obtain ds where ds: "ds \<noteq> []" "list_all is_digit ds" and
    t: "t = js ''[offset:'' @ ds @ [RBRACKET] \<and> n = digits_val ds \<or>
        t = js ''[offset:-'' @ ds @ [RBRACKET] \<and> n = - digits_val ds"
    unfolding is_plain_offset_tag_def by blast
  from t show ?thesis
  proof
    assume a: "t = js ''[offset:'' @ ds @ [RBRACKET] \<and> n = digits_val ds"
    then have "t @ post = js ''[offset:'' @ ds @ RBRACKET # post" by simp
    with match_offset_plain [OF ds, of post] parseInt_plain [OF ds] a ds(1)
    show ?thesis by simp
  next
    assume a: "t = js ''[offset:-'' @ ds @ [RBRACKET] \<and> n = - digits_val ds"
    then have "t @ post = js ''[offset:'' @ MINUS # ds @ RBRACKET # post"
      by (simp add: js_offset_minus)
    with match_offset_minus [OF ds, of post] parseInt_minus [OF ds(2)] a
    show ?thesis by simp
  qed
qed

lemma match_offset_tag:
  assumes "match_offset s = Some g"
  shows "\<exists>t post n. s = t @ post \<and> is_plain_offset_tag t n"
proof -
  from assms have pre: "prefix (js ''[offset:'') s"
    by (auto simp: match_offset_def split: if_splits)
  have len: "length (js ''[offset:'') = 8" by (simp add: js_def)
  define r where "r = drop 8 s"
  from pre obtain zs where zs: "s = js ''[offset:'' @ zs" by (auto elim: prefixE)
  have "r = zs" unfolding r_def by (subst zs) (simp add: len)
  with zs have s: "s = js ''[offset:'' @ r" by simp
  define sign where "sign = takeWhile (\<lambda>c. c = MINUS) (take 1 r)"
  have sg: "r = sign @ drop (length sign) r" "length sign \<le> 1" "list_all (\<lambda>c. c = MINUS) sign"
    using takeWhile_take_prefix [of "\<lambda>c. c = MINUS" 1 r sign] by (simp_all add: sign_def)
  define r1 where "r1 = drop (length sign) r"
  define ds where "ds = takeWhile is_digit r1"
  have dsp: "list_all is_digit ds" by (simp add: ds_def list_all_takeWhile)
  have r1: "r1 = ds @ drop (length ds) r1"
    by (metis ds_def takeWhile_dropWhile_id dropWhile_eq_drop)
  from assms pre have dsne: "ds \<noteq> []"
    by (auto simp: match_offset_def Let_def r_def sign_def r1_def ds_def split: if_splits)
  from assms pre dsne obtain r3 where r2: "drop (length ds) r1 = RBRACKET # r3"
    by (auto simp: match_offset_def Let_def r_def sign_def r1_def ds_def
        split: if_splits list.splits)
  have full: "s = js ''[offset:'' @ sign @ ds @ RBRACKET # r3"
    using s sg(1) r1 r2 unfolding r1_def by metis
  from sg(2,3) have "sign = [] \<or> sign = [MINUS]"
    by (cases sign) auto
  then show ?thesis
  proof
    assume "sign = []"
    with full have "s = (js ''[offset:'' @ ds @ [RBRACKET]) @ r3" by simp
    moreover have "is_plain_offset_tag (js ''[offset:'' @ ds @ [RBRACKET]) (digits_val ds)"
      unfolding is_plain_offset_tag_def using dsne dsp by blast
    ultimately show ?thesis by blast
  next
    assume "sign = [MINUS]"
    with full have "s = (js ''[offset:-'' @ ds @ [RBRACKET]) @ r3"
      by (simp add: js_offset_minus)
    moreover have "is_plain_offset_tag (js ''[offset:-'' @ ds @ [RBRACKET]) (- digits_val ds)"
      unfolding is_plain_offset_tag_def using dsne dsp by blast
    ultimately show ?thesis by blast
  qed
qed

lemma match_offset_Nil: "match_offset [] = None"
  by (simp add: match_offset_def js_def)

lemma offset_search_first:
  "match_offset (drop i s) = Some g \<Longrightarrow> \<forall>j<i. match_offset (drop j s) = None \<Longrightarrow>
     offset_search s = Some g"
proof (induction s arbitrary: i)
  case Nil
  then show ?case by (simp add: match_offset_Nil)
next
  case (Cons c cs)
  show ?case
  proof (cases i)
    case 0
    with Cons.prems show ?thesis by simp
  next
    case (Suc i')
    with Cons.prems have "match_offset (c # cs) = None" by fastforce
    moreover from Suc Cons.prems have "match_offset (drop i' cs) = Some g" by simp
    moreover from Suc Cons.prems have "\<forall>j<i'. match_offset (drop j cs) = None" by fastforce
    ultimately show ?thesis using Cons.IH by simp
  qed
qed

lemma offset_search_none:
  "\<forall>i. match_offset (drop i s) = None \<Longrightarrow> offset_search s = None"
proof (induction s)
  case Nil
  show ?case by simp
next
  case (Cons c cs)
  from Cons.prems have "match_offset (drop 0 (c # cs)) = None" by blast
  moreover have "match_offset (drop i cs) = None" for i
    using Cons.prems [THEN spec, of "Suc i"] by simp
  ultimately show ?case using Cons.IH by simp
qed

lemma no_plain_offset_tag_code:
  "(\<forall>i n. \<not> plain_offset_tag_at s i n) \<longleftrightarrow> (\<forall>i. match_offset (drop i s) = None)"
proof
  assume a: "\<forall>i n. \<not> plain_offset_tag_at s i n"
  show "\<forall>i. match_offset (drop i s) = None"
  proof
    fix i
    show "match_offset (drop i s) = None"
    proof (cases "match_offset (drop i s)")
      case None
      then show ?thesis .
    next
      case (Some g)
      from match_offset_tag [OF this] a show ?thesis unfolding plain_offset_tag_at_def by blast
    qed
  qed
next
  assume a: "\<forall>i. match_offset (drop i s) = None"
  show "\<forall>i n. \<not> plain_offset_tag_at s i n"
  proof (intro allI notI)
    fix i n
    assume "plain_offset_tag_at s i n"
    then obtain t post where "drop i s = t @ post" "is_plain_offset_tag t n"
      unfolding plain_offset_tag_at_def by blast
    with offset_tag_match [of t n post] obtain g where "match_offset (drop i s) = Some g"
      by auto
    with a [THEN spec, of i] show False by simp
  qed
qed

lemma plain_offset_tag_is_offset_tag: "plain_offset_tag_at s i n \<Longrightarrow> offset_tag_at s i n"
  unfolding plain_offset_tag_at_def offset_tag_at_def is_plain_offset_tag_def is_offset_tag_def
  by blast

text \<open>
  C10, as the code has it. The expression of \<^verbatim>\<open>extractOffset\<close> takes a minus sign and no
  plus sign. \<^verbatim>\<open>extractOffset\<close> returns 0 for a text with no tag \<^verbatim>\<open>[offset:N]\<close> where \<open>N\<close> is
  digits after a minus sign or none (the empty text is one), and the value \<open>N\<close> of the
  first such tag when \<open>N\<close> is at most \<open>2\<^sup>5\<^sup>3\<close> in size, so that a number holds it exactly.
  Each such tag is an offset tag of the specification. The model is a total function
  with no error value: nothing in the source throws.
\<close>

theorem extractOffset_first_tag:
  "((\<forall>i n. \<not> plain_offset_tag_at s i n) \<longrightarrow> extractOffset s = 0) \<and>
   (plain_offset_tag_at s i n \<and> (\<forall>j<i. \<forall>m. \<not> plain_offset_tag_at s j m) \<and> \<bar>n\<bar> \<le> 2 ^ 53 \<longrightarrow>
      extractOffset s = of_int n \<and> offset_tag_at s i n)"
proof (intro conjI impI)
  assume "\<forall>i n. \<not> plain_offset_tag_at s i n"
  then have "offset_search s = None"
    unfolding no_plain_offset_tag_code by (rule offset_search_none)
  then show "extractOffset s = 0" by (simp add: extractOffset_def)
next
  assume a: "plain_offset_tag_at s i n \<and> (\<forall>j<i. \<forall>m. \<not> plain_offset_tag_at s j m) \<and> \<bar>n\<bar> \<le> 2 ^ 53"
  then show "offset_tag_at s i n" by (simp add: plain_offset_tag_is_offset_tag)
  from a obtain t post where t: "drop i s = t @ post" "is_plain_offset_tag t n"
    unfolding plain_offset_tag_at_def by blast
  from offset_tag_match [OF t(2), of post] t(1) obtain g where
    g: "match_offset (drop i s) = Some g" "g \<noteq> []" "parseInt g = rnd (of_int n)" by auto
  have first: "\<forall>j<i. match_offset (drop j s) = None"
  proof (intro allI impI)
    fix j assume j: "j < i"
    show "match_offset (drop j s) = None"
    proof (cases "match_offset (drop j s)")
      case None
      then show ?thesis .
    next
      case (Some g')
      from match_offset_tag [OF this] a j show ?thesis unfolding plain_offset_tag_at_def by blast
    qed
  qed
  from offset_search_first [OF g(1) first] have "offset_search s = Some g" .
  moreover from g(1) have "s \<noteq> []" by (auto simp: match_offset_Nil)
  ultimately have "extractOffset s = rnd (of_int n)"
    using g(2,3) by (simp add: extractOffset_def)
  with a show "extractOffset s = of_int n" by (simp add: rnd_int_exact)
qed

lemma plain_offset_tag_at_match: "plain_offset_tag_at s i n \<Longrightarrow> match_offset (drop i s) \<noteq> None"
proof -
  assume "plain_offset_tag_at s i n"
  then obtain t post where "drop i s = t @ post" "is_plain_offset_tag t n"
    unfolding plain_offset_tag_at_def by blast
  with offset_tag_match [of t n post] show ?thesis by auto
qed

lemma plain_offset_tag_at_plain:
  "drop i s = js ''[offset:'' @ ds @ RBRACKET # post \<Longrightarrow> ds \<noteq> [] \<Longrightarrow> list_all is_digit ds \<Longrightarrow>
     plain_offset_tag_at s i (digits_val ds)"
proof -
  assume a: "drop i s = js ''[offset:'' @ ds @ RBRACKET # post" "ds \<noteq> []" "list_all is_digit ds"
  then have "drop i s = (js ''[offset:'' @ ds @ [RBRACKET]) @ post" by simp
  moreover have "is_plain_offset_tag (js ''[offset:'' @ ds @ [RBRACKET]) (digits_val ds)"
    unfolding is_plain_offset_tag_def using a(2,3) by blast
  ultimately show ?thesis unfolding plain_offset_tag_at_def by blast
qed

lemma plain_offset_tag_at_minus:
  "drop i s = js ''[offset:-'' @ ds @ RBRACKET # post \<Longrightarrow> ds \<noteq> [] \<Longrightarrow> list_all is_digit ds \<Longrightarrow>
     plain_offset_tag_at s i (- digits_val ds)"
proof -
  assume a: "drop i s = js ''[offset:-'' @ ds @ RBRACKET # post" "ds \<noteq> []" "list_all is_digit ds"
  then have "drop i s = (js ''[offset:-'' @ ds @ [RBRACKET]) @ post" by simp
  moreover have "is_plain_offset_tag (js ''[offset:-'' @ ds @ [RBRACKET]) (- digits_val ds)"
    unfolding is_plain_offset_tag_def using a(2,3) by blast
  ultimately show ?thesis unfolding plain_offset_tag_at_def by blast
qed

lemma no_plain_offset_tag_list:
  "(\<forall>i n. \<not> plain_offset_tag_at s i n) \<longleftrightarrow>
     list_all (\<lambda>i. match_offset (drop i s) = None) [0..<length s]"
proof -
  have "match_offset (drop i s) = None" if "length s \<le> i" for i
    using that by (simp add: match_offset_Nil)
  then show ?thesis
    unfolding no_plain_offset_tag_code list_all_iff
    by (auto simp: not_less [symmetric] simp del: not_None_eq)
qed

theorem extractOffset_first_tag_witness:
  "extractOffset (js ''x[offset:-250] [offset:3]'') = - 250 \<and>
   extractOffset (js ''[offset:] [offset:+5] [ofset:7]'') = 0"
proof -
  have d: "digits_val (js ''250'') = 250" by code_simp
  have "plain_offset_tag_at (js ''x[offset:-250] [offset:3]'') 1 (- digits_val (js ''250''))"
    by (rule plain_offset_tag_at_minus [where post = "js '' [offset:3]''"]) (simp_all add: js_def is_digit_def)
  with d have t: "plain_offset_tag_at (js ''x[offset:-250] [offset:3]'') 1 (- 250)" by simp
  have "match_offset (drop 0 (js ''x[offset:-250] [offset:3]'')) = None" by code_simp
  then have f: "\<forall>j<1. \<forall>m. \<not> plain_offset_tag_at (js ''x[offset:-250] [offset:3]'') j m"
    using plain_offset_tag_at_match [of "js ''x[offset:-250] [offset:3]''" 0] by auto
  have n: "\<forall>i n. \<not> plain_offset_tag_at (js ''[offset:] [offset:+5] [ofset:7]'') i n"
    unfolding no_plain_offset_tag_list by code_simp
  have 1: "extractOffset (js ''x[offset:-250] [offset:3]'') = - 250"
    using extractOffset_first_tag [of "js ''x[offset:-250] [offset:3]''" 1 "- 250", THEN conjunct2] t f
    by simp
  have 2: "extractOffset (js ''[offset:] [offset:+5] [ofset:7]'') = 0"
    using extractOffset_first_tag [of "js ''[offset:] [offset:+5] [ofset:7]''" 0 0, THEN conjunct1] n
    by simp
  from 1 2 show ?thesis by (intro conjI)
qed

lemma offset_tag_at_plus:
  "drop i s = js ''[offset:+'' @ ds @ RBRACKET # post \<Longrightarrow> ds \<noteq> [] \<Longrightarrow> list_all is_digit ds \<Longrightarrow>
     offset_tag_at s i (digits_val ds)"
proof -
  assume a: "drop i s = js ''[offset:+'' @ ds @ RBRACKET # post" "ds \<noteq> []" "list_all is_digit ds"
  then have "drop i s = (js ''[offset:+'' @ ds @ [RBRACKET]) @ post" by simp
  moreover have "is_offset_tag (js ''[offset:+'' @ ds @ [RBRACKET]) (digits_val ds)"
    unfolding is_offset_tag_def using a(2,3) by blast
  ultimately show ?thesis unfolding offset_tag_at_def by blast
qed

text \<open>
  Two offset tags of the specification whose value is not returned. The tag
  \<^verbatim>\<open>[offset:+500]\<close> has a plus sign, which the expression \<^verbatim>\<open>-?\d+\<close> does not take: no match,
  and the result is 0. Beyond \<open>2\<^sup>5\<^sup>3\<close> not every integer is a number: the tag
  \<^verbatim>\<open>[offset:9007199254740993]\<close> has the value \<open>2\<^sup>5\<^sup>3 + 1\<close>, and \<^verbatim>\<open>parseInt\<close> returns the
  nearest number, \<open>2\<^sup>5\<^sup>3\<close>.
\<close>

theorem extractOffset_plus_sign_and_large_offset:
  "offset_tag_at (js ''[offset:+500]'') 0 500 \<and>
   extractOffset (js ''[offset:+500]'') = 0 \<and>
   offset_tag_at (js ''[offset:9007199254740993]'') 0 9007199254740993 \<and>
   extractOffset (js ''[offset:9007199254740993]'') = 9007199254740992"
proof (intro conjI)
  have p: "digits_val (js ''500'') = 500" by code_simp
  have "offset_tag_at (js ''[offset:+500]'') 0 (digits_val (js ''500''))"
    by (rule offset_tag_at_plus [where post = "[]"]) (simp_all add: js_def is_digit_def)
  with p show "offset_tag_at (js ''[offset:+500]'') 0 500" by simp
  show "extractOffset (js ''[offset:+500]'') = 0" by code_simp
  have d: "digits_val (js ''9007199254740993'') = 9007199254740993" by code_simp
  have "plain_offset_tag_at (js ''[offset:9007199254740993]'') 0
      (digits_val (js ''9007199254740993''))"
    by (rule plain_offset_tag_at_plain [where post = "[]"]) (simp_all add: js_def is_digit_def)
  with d show "offset_tag_at (js ''[offset:9007199254740993]'') 0 9007199254740993"
    by (simp add: plain_offset_tag_is_offset_tag)
  show "extractOffset (js ''[offset:9007199254740993]'') = 9007199254740992" by code_simp
qed

section \<open>Choosing a URL by quality\<close>

lemma regex_test_sublist: "regex_test pat s \<longleftrightarrow> sublist pat s"
  by (induction s) (simp_all add: sublist_Cons_right)

lemma qualityMap_tier:
  "(q, tok) \<in> set tiers \<Longrightarrow> q \<noteq> js ''auto'' \<and> qualityMap q = Some (Str tok) \<and> tok \<noteq> []"
  by (auto simp: tiers_def qualityMap_def js_def)

lemma qualityMap_other:
  assumes "q \<notin> fst ` set tiers" "q \<noteq> js ''auto''" "q \<notin> set (js ''__proto__'' # prototype_functions)"
  shows "qualityMap q = None"
proof -
  from assms(1,2) have "map_of [(js ''Less_low'', js ''48''), (js ''low'', js ''96''),
      (js ''medium'', js ''160''), (js ''high'', js ''320''), (js ''auto'', [])] q = None"
    by (auto simp: tiers_def)
  with assms(3) show ?thesis by (simp add: qualityMap_def)
qed

lemma find_quality:
  "tok \<noteq> [] \<Longrightarrow>
     find (\<lambda>u. quality u \<noteq> [] \<and> regexp_i_test native (Str tok) (quality u)) ds =
     find (\<lambda>u. sublist tok (quality u)) ds"
  by (induction ds) (auto simp: regex_test_sublist regexp_i_test_def)

lemma getUrlByQuality_tier:
  assumes "(q, tok) \<in> set tiers" "ds \<noteq> []"
  shows "getUrlByQuality native ds q =
           (case find (\<lambda>u. sublist tok (quality u)) ds of
              Some m \<Rightarrow> Inr (link_or_url m)
            | None \<Rightarrow> Inr (link_or_url (last ds)))"
  using qualityMap_tier [OF assms(1)] assms(2)
  by (simp add: getUrlByQuality_def Let_def find_quality last_elem_def split: option.splits)

lemma getUrlByQuality_fallback:
  assumes "q = js ''auto'' \<or>
           q \<notin> fst ` set tiers \<and> q \<notin> set (js ''__proto__'' # prototype_functions)"
    "ds \<noteq> []"
  shows "getUrlByQuality native ds q = Inr (link_or_url (last ds))"
proof (cases "q = js ''auto''")
  case True
  with assms(2) show ?thesis by (simp add: getUrlByQuality_def last_elem_def)
next
  case False
  with assms(1) have "qualityMap q = None" by (intro qualityMap_other) simp_all
  with False assms(2) show ?thesis by (simp add: getUrlByQuality_def last_elem_def)
qed

lemma getUrlByQuality_candidate:
  assumes "ds \<noteq> []"
  shows "\<exists>u\<in>set ds. getUrlByQuality native ds q = Inr (link_or_url u)"
proof -
  have l: "last ds \<in> set ds" using assms by simp
  have f: "m \<in> set ds" if "find P ds = Some m" for P m
    using that unfolding find_Some_iff by auto
  show ?thesis
  proof (cases "q = js ''auto''")
    case True
    with assms have "getUrlByQuality native ds q = Inr (link_or_url (last ds))"
      by (simp add: getUrlByQuality_def last_elem_def)
    with l show ?thesis by blast
  next
    case False
    define matchingUrl where "matchingUrl =
      (case qualityMap q of
         None \<Rightarrow> None
       | Some targetBitrate \<Rightarrow>
           if targetBitrate = Str [] then None
           else find (\<lambda>u. quality u \<noteq> [] \<and> regexp_i_test native targetBitrate (quality u)) ds)"
    have g: "getUrlByQuality native ds q =
        (case matchingUrl of Some m \<Rightarrow> Inr (link_or_url m) | None \<Rightarrow> Inr (link_or_url (last ds)))"
      using False assms by (simp add: getUrlByQuality_def Let_def matchingUrl_def last_elem_def)
    show ?thesis
    proof (cases matchingUrl)
      case None
      with g l show ?thesis by auto
    next
      case (Some m)
      then have "m \<in> set ds"
        by (auto simp: matchingUrl_def dest: f split: option.splits if_splits)
      with g Some show ?thesis by auto
    qed
  qed
qed

lemma link_or_url_result:
  "link_or_url u \<noteq> Some [] \<and> (link_or_url u = None \<longleftrightarrow> \<not> truthy (link u) \<and> \<not> truthy (DownloadUrl.url u))"
  by (auto simp: link_or_url_def or_null_def or_else_def truthy_def split: option.splits)

text \<open>
  C3, as the code has it. For a non-empty list of candidates, \<^verbatim>\<open>getUrlByQuality\<close> (and
  \<^verbatim>\<open>extractPlayableUrl\<close> on a song with that list) returns \<^verbatim>\<open>link || url || null\<close> of one
  candidate of the list, whatever the quality setting and the engine: of the first one
  whose quality tag contains the bitrate digits of the tier (48, 96, 160, 320; digits
  have no letter case) when there is one; of the last candidate when no tag matches, or
  the setting is \<^verbatim>\<open>auto\<close>, or it is neither one of the four tiers nor a property name of
  \<^verbatim>\<open>Object.prototype\<close>. What it returns is never the empty string, and is \<^verbatim>\<open>null\<close> exactly when
  the chosen candidate has neither a non-empty \<^verbatim>\<open>link\<close> nor a non-empty \<^verbatim>\<open>url\<close>.
\<close>

theorem getUrlByQuality_selection:
  assumes "ds \<noteq> []"
  shows "(\<forall>tok i. (q, tok) \<in> set tiers \<and> i < length ds \<and> sublist tok (quality (ds ! i)) \<and>
             (\<forall>j<i. \<not> sublist tok (quality (ds ! j))) \<longrightarrow>
           getUrlByQuality native ds q = Inr (link_or_url (ds ! i))) \<and>
         (q = js ''auto'' \<or>
          q \<notin> fst ` set tiers \<and> q \<notin> set (js ''__proto__'' # prototype_functions) \<or>
            (\<exists>tok. (q, tok) \<in> set tiers \<and> (\<forall>u\<in>set ds. \<not> sublist tok (quality u))) \<longrightarrow>
           getUrlByQuality native ds q = Inr (link_or_url (last ds))) \<and>
         (\<exists>u\<in>set ds. getUrlByQuality native ds q = Inr (link_or_url u)) \<and>
         (\<forall>v. link_or_url v \<noteq> Some [] \<and>
              (link_or_url v = None \<longleftrightarrow> \<not> truthy (link v) \<and> \<not> truthy (DownloadUrl.url v))) \<and>
         extractPlayableUrl native
           (Some \<lparr>downloadUrl = Some ds, download_url = d, media_url = m, url = u, audio = a\<rparr>) q =
           getUrlByQuality native ds q \<and>
         extractPlayableUrl native
           (Some \<lparr>downloadUrl = None, download_url = Some ds, media_url = m, url = u, audio = a\<rparr>) q =
           getUrlByQuality native ds q"
proof (intro conjI allI impI)
  fix tok i
  assume a: "(q, tok) \<in> set tiers \<and> i < length ds \<and> sublist tok (quality (ds ! i)) \<and>
             (\<forall>j<i. \<not> sublist tok (quality (ds ! j)))"
  then have "find (\<lambda>u. sublist tok (quality u)) ds = Some (ds ! i)"
    unfolding find_Some_iff by blast
  moreover from a assms have "getUrlByQuality native ds q =
      (case find (\<lambda>u. sublist tok (quality u)) ds of
         Some m \<Rightarrow> Inr (link_or_url m) | None \<Rightarrow> Inr (link_or_url (last ds)))"
    by (intro getUrlByQuality_tier) simp_all
  ultimately show "getUrlByQuality native ds q = Inr (link_or_url (ds ! i))"
    by simp
next
  assume a: "q = js ''auto'' \<or>
          q \<notin> fst ` set tiers \<and> q \<notin> set (js ''__proto__'' # prototype_functions) \<or>
            (\<exists>tok. (q, tok) \<in> set tiers \<and> (\<forall>u\<in>set ds. \<not> sublist tok (quality u)))"
  show "getUrlByQuality native ds q = Inr (link_or_url (last ds))"
  proof (cases "q = js ''auto'' \<or>
      q \<notin> fst ` set tiers \<and> q \<notin> set (js ''__proto__'' # prototype_functions)")
    case True
    then show ?thesis using assms by (rule getUrlByQuality_fallback)
  next
    case False
    with a obtain tok where t: "(q, tok) \<in> set tiers" "\<forall>u\<in>set ds. \<not> sublist tok (quality u)"
      by blast
    then have "find (\<lambda>u. sublist tok (quality u)) ds = None"
      unfolding find_None_iff by blast
    with getUrlByQuality_tier [OF t(1) assms] show ?thesis by simp
  qed
next
  show "\<exists>u\<in>set ds. getUrlByQuality native ds q = Inr (link_or_url u)"
    using assms by (rule getUrlByQuality_candidate)
next
  fix v
  show "link_or_url v \<noteq> Some []"
    using link_or_url_result [of v] by blast
  show "link_or_url v = None \<longleftrightarrow> \<not> truthy (link v) \<and> \<not> truthy (DownloadUrl.url v)"
    using link_or_url_result [of v] by blast
next
  show "extractPlayableUrl native
           (Some \<lparr>downloadUrl = Some ds, download_url = d, media_url = m, url = u, audio = a\<rparr>) q =
           getUrlByQuality native ds q"
    using assms by (simp add: extractPlayableUrl_def Let_def)
  show "extractPlayableUrl native
           (Some \<lparr>downloadUrl = None, download_url = Some ds, media_url = m, url = u, audio = a\<rparr>) q =
           getUrlByQuality native ds q"
    using assms by (simp add: extractPlayableUrl_def Let_def)
qed

theorem getUrlByQuality_selection_witness:
  "getUrlByQuality (\<lambda>k s. False)
     [\<lparr>quality = js ''48kbps'', link = None, url = Some (js ''a'')\<rparr>,
      \<lparr>quality = js ''320kbps'', link = None, url = Some (js ''b'')\<rparr>] (js ''high'') =
     Inr (Some (js ''b'')) \<and>
   getUrlByQuality (\<lambda>k s. False)
     [\<lparr>quality = js ''48kbps'', link = None, url = Some (js ''a'')\<rparr>,
      \<lparr>quality = js ''320kbps'', link = None, url = Some (js ''b'')\<rparr>] (js ''unknown-tier'') =
     Inr (Some (js ''b''))"
proof -
  define ds where "ds = [\<lparr>quality = js ''48kbps'', link = None, url = Some (js ''a'')\<rparr>,
      \<lparr>quality = js ''320kbps'', link = None, url = Some (js ''b'')\<rparr>]"
  have ne: "ds \<noteq> []" by (simp add: ds_def)
  note T = getUrlByQuality_selection [OF ne, of _ "\<lambda>k s. False"]
  have t: "(js ''high'', js ''320'') \<in> set tiers" by (simp add: tiers_def)
  have s1: "sublist (js ''320'') (quality (ds ! 1))" unfolding ds_def by code_simp
  have s0: "\<not> sublist (js ''320'') (quality (ds ! 0))" unfolding ds_def by code_simp
  then have f: "\<forall>j<1. \<not> sublist (js ''320'') (quality (ds ! j))" by simp
  have l1: "link_or_url (ds ! 1) = Some (js ''b'')" unfolding ds_def by code_simp
  have ll: "link_or_url (last ds) = Some (js ''b'')" unfolding ds_def by code_simp
  have u: "js ''unknown-tier'' \<notin> fst ` set tiers \<and>
      js ''unknown-tier'' \<notin> set (js ''__proto__'' # prototype_functions)"
    by (simp add: tiers_def prototype_functions_def js_def)
  have "getUrlByQuality (\<lambda>k s. False) ds (js ''high'') = Inr (link_or_url (ds ! 1))"
    using T [of "js ''high''", THEN conjunct1, THEN spec, THEN spec, of "js ''320''" 1] t s1 f
    by (simp add: ds_def)
  with l1 have 1: "getUrlByQuality (\<lambda>k s. False) ds (js ''high'') = Inr (Some (js ''b''))" by simp
  have "getUrlByQuality (\<lambda>k s. False) ds (js ''unknown-tier'') = Inr (link_or_url (last ds))"
    using T [of "js ''unknown-tier''", THEN conjunct2, THEN conjunct1] u by blast
  with ll have 2: "getUrlByQuality (\<lambda>k s. False) ds (js ''unknown-tier'') = Inr (Some (js ''b''))"
    by simp
  from 1 2 show ?thesis unfolding ds_def by (intro conjI)
qed

text \<open>
  A candidate may lack both \<^verbatim>\<open>link\<close> and \<^verbatim>\<open>url\<close> (both are optional in \<^verbatim>\<open>DownloadUrl\<close>);
  when it is the one selected the result is \<^verbatim>\<open>null\<close>, though the list is not empty. And a
  setting that is none of the five may still find a value in the table: for \<^verbatim>\<open>__proto__\<close>
  the pattern is \<^verbatim>\<open>[object Object]\<close>, the tag \<^verbatim>\<open>48kbps\<close> has a \<^verbatim>\<open>b\<close>, and the first candidate
  is returned, not the last.
\<close>

theorem getUrlByQuality_null_and_inherited_key:
  "getUrlByQuality (\<lambda>k s. False)
     [\<lparr>quality = js ''320kbps'', link = None, url = None\<rparr>] (js ''high'') = Inr None \<and>
   extractPlayableUrl (\<lambda>k s. False)
     (Some \<lparr>downloadUrl = Some [\<lparr>quality = js ''320kbps'', link = None, url = None\<rparr>],
            download_url = None, media_url = Some (js ''m''), url = None, audio = None\<rparr>)
     (js ''high'') = Inr None \<and>
   getUrlByQuality (\<lambda>k s. False)
     [\<lparr>quality = js ''48kbps'', link = None, url = Some (js ''a'')\<rparr>,
      \<lparr>quality = js ''320kbps'', link = None, url = Some (js ''b'')\<rparr>] (js ''__proto__'') =
     Inr (Some (js ''a'')) \<and>
   extractPlayableUrl (\<lambda>k s. False)
     (Some \<lparr>downloadUrl = Some [\<lparr>quality = js ''48kbps'', link = None, url = Some (js ''a'')\<rparr>,
                                \<lparr>quality = js ''320kbps'', link = None, url = Some (js ''b'')\<rparr>],
            download_url = None, media_url = None, url = None, audio = None\<rparr>)
     (js ''__proto__'') = Inr (Some (js ''a''))"
  by code_simp

end
